theory Spec2Isabelle
  imports Complex_Main "HOL-Library.AList" "HOL-Library.Log_Nat"
begin

section \<open>Python values used by \<open>RepoAnalyzer\<close>\<close>

text \<open>
  A Python \<open>dict\<close> keeps its keys in insertion order and holds every key once.  It is
  modelled as an association list in insertion order; \<open>d.get(k, default)\<close>,
  \<open>d[k] = v\<close> and \<open>k in d\<close> are the operations the analyzer uses; \<open>d[k]\<close> raises
  \<open>KeyError\<close> on a missing key.
\<close>

type_synonym ('k, 'v) dict = "('k \<times> 'v) list"

definition dict_get :: "('k, 'v) dict \<Rightarrow> 'k \<Rightarrow> 'v \<Rightarrow> 'v" where
  "dict_get d k dflt = (case map_of d k of None \<Rightarrow> dflt | Some v \<Rightarrow> v)"

definition dict_set :: "('k, 'v) dict \<Rightarrow> 'k \<Rightarrow> 'v \<Rightarrow> ('k, 'v) dict" where
  \<comment> \<open>\<open>d[k] = v\<close>: an existing key keeps its position, a new key goes last.\<close>
  "dict_set d k v = AList.update k v d"

definition dict_has :: "('k, 'v) dict \<Rightarrow> 'k \<Rightarrow> bool" where
  "dict_has d k = (map_of d k \<noteq> None)"

definition dict_of_pairs :: "('k \<times> 'v) list \<Rightarrow> ('k, 'v) dict" where
  \<comment> \<open>\<open>dict(pairs)\<close>: the pairs are inserted from left to right.\<close>
  "dict_of_pairs kvs = foldl (\<lambda>d (k, v). dict_set d k v) [] kvs"

datatype py_error = ZeroDivisionError | OverflowError | KeyError

subsection \<open>Binary64 floating point\<close>

text \<open>
  A Python \<open>float\<close> is an IEEE 754 binary64 number.  A finite float is modelled by the
  rational number it denotes (so \<open>0.0\<close> and \<open>-0.0\<close> are the same value, as they are for
  Python's \<open>==\<close>), the two infinities are separate values; no operation of the analyzer
  produces a NaN.  Every operation rounds its exact result to the nearest binary64
  number, ties to the even significand.
\<close>

datatype pyfloat = Fin rat | PosInf | NegInf

definition round_half_even :: "rat \<Rightarrow> int" where
  "round_half_even x =
     (let f = \<lfloor>x\<rfloor>; d = x - of_int f
      in if d < 1 / 2 then f else if 1 / 2 < d then f + 1 else if even f then f else f + 1)"

definition exponent :: "rat \<Rightarrow> int" where
  \<comment> \<open>\<open>\<lfloor>log\<^sub>2 |x|\<rfloor>\<close> for \<open>x \<noteq> 0\<close>\<close>
  "exponent x =
     (if 1 \<le> \<bar>x\<bar> then bitlen \<lfloor>\<bar>x\<bar>\<rfloor> - 1 else - bitlen (\<lceil>1 / \<bar>x\<bar>\<rceil> - 1))"

definition ulp :: "rat \<Rightarrow> rat" where
  \<comment> \<open>spacing of the binary64 numbers around \<open>x\<close>: 53 significant bits, and the
      subnormal spacing \<open>2\<^sup>-\<^sup>1\<^sup>0\<^sup>7\<^sup>4\<close> below \<open>2\<^sup>-\<^sup>1\<^sup>0\<^sup>2\<^sup>2\<close>\<close>
  "ulp x = 2 powi (max (exponent x) (- 1022) - 52)"

definition round_binary64 :: "rat \<Rightarrow> rat" where
  "round_binary64 x = (if x = 0 then 0 else of_int (round_half_even (x / ulp x)) * ulp x)"

definition too_large :: "rat \<Rightarrow> bool" where
  \<comment> \<open>the rounded result lies beyond the largest finite binary64 number\<close>
  "too_large y = (2 ^ 1024 \<le> \<bar>y\<bar>)"

definition int_truediv :: "int \<Rightarrow> int \<Rightarrow> py_error + pyfloat" where
  \<comment> \<open>\<open>a / b\<close> on two \<open>int\<close>s: the correctly rounded quotient\<close>
  "int_truediv a b =
     (if b = 0 then Inl ZeroDivisionError
      else let y = round_binary64 (of_int a / of_int b)
           in if too_large y then Inl OverflowError else Inr (Fin y))"

fun float_mul_int :: "pyfloat \<Rightarrow> int \<Rightarrow> pyfloat" where
  \<comment> \<open>\<open>x * n\<close> for a float \<open>x\<close> and a positive \<open>int\<close> constant \<open>n\<close> that is itself a
      binary64 number (here 100); overflow gives an infinity, not an exception\<close>
  "float_mul_int (Fin x) n =
     (let y = round_binary64 (x * of_int n)
      in if too_large y then (if 0 < y then PosInf else NegInf) else Fin y)"
| "float_mul_int PosInf n = PosInf"
| "float_mul_int NegInf n = NegInf"

fun float_round1 :: "pyfloat \<Rightarrow> pyfloat" where
  \<comment> \<open>\<open>round(x, 1)\<close> on a float: the exact value is rounded half-even to one decimal
      place and the decimal is converted back to the nearest float; infinities round to
      themselves\<close>
  "float_round1 (Fin x) = Fin (round_binary64 (of_int (round_half_even (x * 10)) / 10))"
| "float_round1 PosInf = PosInf"
| "float_round1 NegInf = NegInf"

section \<open>The Scorer: \<open>RepoAnalyzer.calculate_scores\<close>\<close>

type_synonym activities = "(string, int) dict"

record breakdown =
  feat_bug_PR :: int
  document_PR :: int
  feat_bug_issue :: int
  document_issue :: int
  total :: int

record score = breakdown +
  rate :: pyfloat

definition score_participant :: "activities \<Rightarrow> breakdown" where
  \<comment> \<open>the body of the first loop, up to the entry stored in \<open>scores\<close>\<close>
  "score_participant activities =
     (let p_f = dict_get activities ''p_enhancement'' 0;
          p_b = dict_get activities ''p_bug'' 0;
          p_d = dict_get activities ''p_documentation'' 0;
          p_fb = p_f + p_b;
          i_f = dict_get activities ''i_enhancement'' 0;
          i_b = dict_get activities ''i_bug'' 0;
          i_d = dict_get activities ''i_documentation'' 0;
          i_fb = i_f + i_b;
          p_valid = p_fb + min p_d (3 * max 1 p_fb);
          i_valid = min (i_fb + i_d) (4 * p_valid);
          p_fb_at = min p_fb p_valid;
          p_d_at = p_valid - p_fb;
          i_fb_at = min i_fb i_valid;
          i_d_at = i_valid - i_fb_at;
          S = 3 * p_fb_at + 2 * p_d_at + 2 * i_fb_at + 1 * i_d_at
      in \<lparr>feat_bug_PR = 3 * p_fb_at, document_PR = 2 * p_d_at,
          feat_bug_issue = 2 * i_fb_at, document_issue = 1 * i_d_at, total = S\<rparr>)"

fun score_loop ::
  "(string, activities) dict \<Rightarrow> (string, breakdown) dict \<times> int \<Rightarrow> (string, breakdown) dict \<times> int"
where
  \<comment> \<open>\<open>for participant, activities in self.participants.items()\<close>, threading
      \<open>scores\<close> and \<open>total_score_sum\<close>\<close>
  "score_loop [] acc = acc"
| "score_loop ((participant, activities) # rest) (scores, total_score_sum) =
     (let b = score_participant activities
      in score_loop rest (dict_set scores participant b, total_score_sum + total b))"

definition participation_rate :: "int \<Rightarrow> int \<Rightarrow> py_error + pyfloat" where
  \<comment> \<open>\<open>round((total / total_score_sum) * 100 if total_score_sum > 0 else 0, 1)\<close>;
      \<open>round(0, 1)\<close> of the \<open>int\<close> 0 is 0\<close>
  "participation_rate tot total_score_sum =
     (if total_score_sum > 0
      then (case int_truediv tot total_score_sum of
              Inl e \<Rightarrow> Inl e
            | Inr q \<Rightarrow> Inr (float_round1 (float_mul_int q 100)))
      else Inr (Fin 0))"

fun rate_loop :: "(string, breakdown) dict \<Rightarrow> int \<Rightarrow> py_error + (string, score) dict" where
  \<comment> \<open>\<open>for participant in scores\<close>: each entry receives its \<open>rate\<close>; the first
      exception ends the call\<close>
  "rate_loop [] total_score_sum = Inr []"
| "rate_loop ((participant, b) # rest) total_score_sum =
     (case participation_rate (total b) total_score_sum of
        Inl e \<Rightarrow> Inl e
      | Inr r \<Rightarrow>
          (case rate_loop rest total_score_sum of
             Inl e \<Rightarrow> Inl e
           | Inr rest' \<Rightarrow> Inr ((participant, breakdown.extend b \<lparr>rate = r\<rparr>) # rest')))"

definition sorted_reverse :: "('a \<Rightarrow> int) \<Rightarrow> 'a list \<Rightarrow> 'a list" where
  \<comment> \<open>\<open>sorted(xs, key=key, reverse=True)\<close>: Python reverses the list, sorts it stably
      in ascending key order and reverses the result\<close>
  "sorted_reverse key xs = rev (sort_key key (rev xs))"

definition calculate_scores :: "(string, activities) dict \<Rightarrow> py_error + (string, score) dict" where
  "calculate_scores participants =
     (let (scores, total_score_sum) = score_loop participants ([], 0)
      in case rate_loop scores total_score_sum of
           Inl e \<Rightarrow> Inl e
         | Inr scores' \<Rightarrow> Inr (dict_of_pairs (sorted_reverse (\<lambda>x. total (snd x)) scores')))"

text \<open>
  The values the loop body computes on the way, as functions of the activity counts
  (source lines 126, 132, 135 and 136).
\<close>

definition p_fb_of :: "activities \<Rightarrow> int" where
  "p_fb_of activities = dict_get activities ''p_enhancement'' 0 + dict_get activities ''p_bug'' 0"

definition i_fb_of :: "activities \<Rightarrow> int" where
  "i_fb_of activities = dict_get activities ''i_enhancement'' 0 + dict_get activities ''i_bug'' 0"

definition p_valid_of :: "activities \<Rightarrow> int" where
  "p_valid_of activities =
     p_fb_of activities
       + min (dict_get activities ''p_documentation'' 0) (3 * max 1 (p_fb_of activities))"

definition i_valid_of :: "activities \<Rightarrow> int" where
  "i_valid_of activities =
     min (i_fb_of activities + dict_get activities ''i_documentation'' 0)
         (4 * p_valid_of activities)"

definition sum_of_totals :: "(string, activities) dict \<Rightarrow> int" where
  \<comment> \<open>the value of \<open>total_score_sum\<close> after the first loop\<close>
  "sum_of_totals participants =
     sum_list (map (\<lambda>(participant, activities). total (score_participant activities)) participants)"

definition bucket_keys :: "string list" where
  "bucket_keys = [''p_enhancement'', ''p_bug'', ''p_documentation'',
                  ''i_enhancement'', ''i_bug'', ''i_documentation'']"

definition nonneg_counts :: "(string, activities) dict \<Rightarrow> bool" where
  \<comment> \<open>every count that is present is non-negative\<close>
  "nonneg_counts participants =
     list_all (\<lambda>(participant, activities). list_all (\<lambda>(k, n). 0 \<le> n) activities) participants"

text \<open>An entry of \<open>scores\<close> after the second loop, against the entry before it.\<close>

definition rated :: "int \<Rightarrow> string \<times> breakdown \<Rightarrow> string \<times> score \<Rightarrow> bool" where
  "rated s pb psc =
     (fst psc = fst pb \<and> breakdown.truncate (snd psc) = snd pb
      \<and> participation_rate (total (snd pb)) s = Inr (rate (snd psc)))"

section \<open>The Collector: \<open>RepoAnalyzer.collect_PRs_and_issues\<close>\<close>

text \<open>
  An item of the forge's issue list, with the fields the collector reads, typed as the
  forge's API gives them:
  \<^item> \<open>user_login\<close> is \<open>item['user']['login']\<close>, and \<open>None\<close> where the \<open>'user'\<close> key or
    its \<open>'login'\<close> key is absent (the collector then takes \<open>'Unknown'\<close>);
  \<^item> a label carries its \<open>name\<close>, \<open>None\<close> where the key is absent or \<open>null\<close>;
  \<^item> \<open>state_reason\<close> is \<open>None\<close> where the key is absent or \<open>null\<close>;
  \<^item> \<open>pull_request\<close> is \<open>None\<close> for an issue (no \<open>'pull_request'\<close> key) and
    \<open>Some m\<close> for a pull request whose \<open>merged_at\<close> is \<open>m\<close> (\<open>None\<close> where it is absent
    or \<open>null\<close>).
  Strings are byte strings.  \<open>str.lower\<close> is modelled on the ASCII letters and leaves
  every other byte as it is; no other character lower-cases to a letter of
  \<open>enhancement\<close>, \<open>bug\<close> or \<open>documentation\<close>, so this decides in the same way whether a
  lower-cased name is one of the three labels.
\<close>

record label =
  label_name :: "string option"

record item =
  user_login :: "string option"
  labels :: "label list"
  state_reason :: "string option"
  pull_request :: "string option option"

record response =
  status_code :: int
  json :: "item list"
  link :: string

record analyzer =
  participants :: "(string, activities) dict"
  data_collected :: bool

definition init_analyzer :: analyzer where
  \<comment> \<open>\<open>__init__\<close>: no participants, \<open>_data_collected = True\<close>\<close>
  "init_analyzer = \<lparr>participants = [], data_collected = True\<rparr>"

definition lower_char :: "char \<Rightarrow> char" where
  "lower_char c =
     (let n = (of_char c :: nat) in if 65 \<le> n \<and> n \<le> 90 then char_of (n + 32) else c)"

definition lower :: "string \<Rightarrow> string" where
  "lower s = map lower_char s"

fun starts_with :: "string \<Rightarrow> string \<Rightarrow> bool" where
  "starts_with [] s = True"
| "starts_with (c # cs) [] = False"
| "starts_with (c # cs) (d # ds) = (c = d \<and> starts_with cs ds)"

fun contains :: "string \<Rightarrow> string \<Rightarrow> bool" where
  \<comment> \<open>\<open>sub in s\<close>\<close>
  "contains sub [] = (sub = [])"
| "contains sub (c # s) = (starts_with sub (c # s) \<or> contains sub s)"

definition author_of :: "item \<Rightarrow> string" where
  \<comment> \<open>\<open>item.get('user', {}).get('login', 'Unknown')\<close>\<close>
  "author_of it = (case user_login it of None \<Rightarrow> ''Unknown'' | Some login \<Rightarrow> login)"

definition new_counts :: activities where
  "new_counts = [(''p_enhancement'', 0), (''p_bug'', 0), (''p_documentation'', 0),
                 (''i_enhancement'', 0), (''i_bug'', 0), (''i_documentation'', 0)]"

definition label_names :: "item \<Rightarrow> string list" where
  \<comment> \<open>\<open>[label.get('name', '').lower() for label in labels if label.get('name')]\<close>:
      a label without a name, or with the empty name, is dropped\<close>
  "label_names it =
     concat (map (\<lambda>l. case label_name l of
                          None \<Rightarrow> []
                        | Some n \<Rightarrow> if n = [] then [] else [lower n])
                 (labels it))"

fun count_labels :: "string \<Rightarrow> string list \<Rightarrow> activities \<Rightarrow> activities" where
  \<comment> \<open>\<open>for label in label_names: key = prefix + label;
      if key in counts: counts[key] += 1\<close>, on the author's own dict \<open>counts\<close>\<close>
  "count_labels prefix [] counts = counts"
| "count_labels prefix (label # rest) counts =
     (let key = prefix @ label
      in case map_of counts key of
           None \<Rightarrow> count_labels prefix rest counts
         | Some n \<Rightarrow> count_labels prefix rest (dict_set counts key (n + 1)))"

definition register_author ::
  "string \<Rightarrow> (string, activities) dict \<Rightarrow> (string, activities) dict"
where
  \<comment> \<open>\<open>if author not in self.participants: self.participants[author] = {...}\<close>\<close>
  "register_author author ps =
     (if \<not> dict_has ps author then dict_set ps author new_counts else ps)"

definition collect_item ::
  "item \<Rightarrow> (string, activities) dict \<Rightarrow> py_error + (string, activities) dict"
where
  \<comment> \<open>the body of \<open>for item in items\<close>; \<open>self.participants[author]\<close> is the
      author's dict, updated in place by the loop over the labels\<close>
  "collect_item it ps =
     (let author = author_of it;
          ps1 = register_author author ps;
          names = label_names it
      in case pull_request it of
           Some merged_at \<Rightarrow>
             (if merged_at \<noteq> None \<and> merged_at \<noteq> Some []
              then (case map_of ps1 author of
                      None \<Rightarrow> Inl KeyError
                    | Some counts \<Rightarrow> Inr (dict_set ps1 author (count_labels ''p_'' names counts)))
              else Inr ps1)
         | None \<Rightarrow>
             (if state_reason it \<in> {Some ''completed'', Some ''reopened'', None}
              then (case map_of ps1 author of
                      None \<Rightarrow> Inl KeyError
                    | Some counts \<Rightarrow> Inr (dict_set ps1 author (count_labels ''i_'' names counts)))
              else Inr ps1))"

fun collect_items ::
  "item list \<Rightarrow> (string, activities) dict \<Rightarrow> py_error + (string, activities) dict"
where
  "collect_items [] ps = Inr ps"
| "collect_items (it # rest) ps =
     (case collect_item it ps of Inl e \<Rightarrow> Inl e | Inr ps' \<Rightarrow> collect_items rest ps')"

definition has_next :: "string \<Rightarrow> bool" where
  \<comment> \<open>\<open>'rel="next"' in link_header\<close>\<close>
  "has_next link_header = contains (''rel='' @ [CHR 0x22] @ ''next'' @ [CHR 0x22]) link_header"

text \<open>
  \<open>retry_request\<close> belongs to the module \<open>utils.retry_request\<close>, outside
  \<open>analyzer.py\<close>; the collector only uses the response it returns for a page number, so
  it is a parameter: the forge's answer to the request for that page.  The \<open>while True\<close> loop has no bound
  of its own (a forge that always announces a next page keeps it running), so the loop
  is a partial function: \<open>None\<close> stands for not returning.
\<close>

partial_function (option) collect_pages ::
  "(nat \<Rightarrow> response) \<Rightarrow> nat \<Rightarrow> analyzer \<Rightarrow> (py_error + analyzer) option"
where
  "collect_pages retry_request page self =
     (let response = retry_request page
      in if status_code response = 403 then Some (Inr (self\<lparr>data_collected := False\<rparr>))
         else if status_code response \<noteq> 200 then Some (Inr (self\<lparr>data_collected := False\<rparr>))
         else let items = json response
              in if items = [] then Some (Inr self)
                 else (case collect_items items (participants self) of
                         Inl e \<Rightarrow> Some (Inl e)
                       | Inr ps \<Rightarrow>
                           if has_next (link response)
                           then collect_pages retry_request (page + 1) (self\<lparr>participants := ps\<rparr>)
                           else Some (Inr (self\<lparr>participants := ps\<rparr>))))"

definition collect_PRs_and_issues ::
  "(nat \<Rightarrow> response) \<Rightarrow> analyzer \<Rightarrow> (py_error + analyzer) option"
where
  "collect_PRs_and_issues retry_request self = collect_pages retry_request 1 self"

text \<open>
  The pages the loop works through when page \<open>n\<close> is the one that ends it: every page
  before \<open>n\<close> answers 200 with items and announces a next page.
\<close>

definition continues :: "response \<Rightarrow> bool" where
  "continues r = (status_code r = 200 \<and> json r \<noteq> [] \<and> has_next (link r))"

definition ends_at :: "(nat \<Rightarrow> response) \<Rightarrow> nat \<Rightarrow> bool" where
  "ends_at retry_request n =
     (1 \<le> n \<and> list_all (\<lambda>p. continues (retry_request p)) [1..<n] \<and> \<not> continues (retry_request n))"

definition fetched_items :: "(nat \<Rightarrow> response) \<Rightarrow> nat \<Rightarrow> item list" where
  \<comment> \<open>the items of the pages before \<open>n\<close>, and those of page \<open>n\<close> when it answers 200\<close>
  "fetched_items retry_request n =
     concat (map (\<lambda>p. json (retry_request p)) [1..<n])
       @ (if status_code (retry_request n) = 200 then json (retry_request n) else [])"

text \<open>
  What an item is worth to a bucket, in the words of the classification rules: a merged
  pull request counts for the \<open>p_\<close> buckets, an issue that is open, reopened or
  completed counts for the \<open>i_\<close> buckets, and it counts once for every label whose
  lower-cased name is the bucket's label.
\<close>

definition merged :: "item \<Rightarrow> bool" where
  "merged it = (case pull_request it of Some (Some m) \<Rightarrow> m \<noteq> [] | _ \<Rightarrow> False)"

definition countable_issue :: "item \<Rightarrow> bool" where
  "countable_issue it =
     (pull_request it = None \<and> state_reason it \<in> {None, Some ''reopened'', Some ''completed''})"

definition matching_labels :: "item \<Rightarrow> string \<Rightarrow> nat" where
  "matching_labels it l =
     length (filter (\<lambda>lab. case label_name lab of Some n \<Rightarrow> lower n = l | None \<Rightarrow> False)
                    (labels it))"

definition credit :: "item \<Rightarrow> string \<Rightarrow> int" where
  "credit it key =
     (if key \<in> {''p_enhancement'', ''p_bug'', ''p_documentation''} \<and> merged it
        then int (matching_labels it (drop 2 key))
      else if key \<in> {''i_enhancement'', ''i_bug'', ''i_documentation''} \<and> countable_issue it
        then int (matching_labels it (drop 2 key))
      else 0)"

definition well_formed_counts :: "activities \<Rightarrow> bool" where
  \<comment> \<open>a dict of exactly the six buckets\<close>
  "well_formed_counts counts =
     (distinct (map fst counts) \<and> set (map fst counts) = set bucket_keys)"

definition well_formed :: "(string, activities) dict \<Rightarrow> bool" where
  \<comment> \<open>a dict of participants, each with a dict of exactly the six buckets\<close>
  "well_formed ps =
     (distinct (map fst ps) \<and> list_all (\<lambda>(p, counts). well_formed_counts counts) ps)"

definition counts_of :: "(string, activities) dict \<Rightarrow> string \<Rightarrow> activities" where
  \<comment> \<open>a participant's counts; the six zeros for one who is not registered yet\<close>
  "counts_of ps a = (case map_of ps a of None \<Rightarrow> new_counts | Some counts \<Rightarrow> counts)"

section \<open>The specification's formulas\<close>

definition spec_breakdown :: "int \<Rightarrow> int \<Rightarrow> int \<Rightarrow> int \<Rightarrow> int \<Rightarrow> int \<Rightarrow> breakdown" where
  \<comment> \<open>steps 1 to 6 of the specification's algorithm\<close>
  "spec_breakdown p_enhancement p_bug p_documentation i_enhancement i_bug i_documentation =
     (let p_fb = p_enhancement + p_bug;
          i_fb = i_enhancement + i_bug;
          p_valid = p_fb + min p_documentation (3 * max 1 p_fb);
          i_valid = min (i_fb + i_documentation) (4 * p_valid);
          p_fb_at = min p_fb p_valid;
          p_d_at = p_valid - p_fb;
          i_fb_at = min i_fb i_valid;
          i_d_at = i_valid - i_fb_at
      in \<lparr>feat_bug_PR = 3 * p_fb_at, document_PR = 2 * p_d_at,
          feat_bug_issue = 2 * i_fb_at, document_issue = 1 * i_d_at,
          total = 3 * p_fb_at + 2 * p_d_at + 2 * i_fb_at + 1 * i_d_at\<rparr>)"

definition spec_rate :: "int \<Rightarrow> int \<Rightarrow> py_error + pyfloat" where
  \<comment> \<open>\<open>round(100 * total / sum_of_all_totals, 1)\<close>: the product is an exact \<open>int\<close>,
      the quotient is rounded once\<close>
  "spec_rate tot s =
     (case int_truediv (100 * tot) s of Inl e \<Rightarrow> Inl e | Inr q \<Rightarrow> Inr (float_round1 q))"

definition fill_missing :: "activities \<Rightarrow> activities" where
  \<comment> \<open>every missing count replaced by 0\<close>
  "fill_missing activities =
     activities @ map (\<lambda>k. (k, 0)) (filter (\<lambda>k. \<not> dict_has activities k) bucket_keys)"

definition normalized :: "activities \<Rightarrow> activities" where
  \<comment> \<open>every missing or negative count replaced by 0\<close>
  "normalized activities = map (\<lambda>k. (k, max 0 (dict_get activities k 0))) bucket_keys"

text \<open>
  Modelled from the spec: the caller of the analyzer, the program's entry point, which is
  outside \<open>analyzer.py\<close>.  The specification has the Collector signal
  ``data incomplete'' to its caller, and has that condition prevent the Scorer from
  running on partial data: the caller runs \<open>calculate_scores\<close> only when the flag is
  still set after the collection.
\<close>

datatype run_result = Data_incomplete | Collector_error py_error
  | Scored "py_error + (string, score) dict"

definition run :: "(nat \<Rightarrow> response) \<Rightarrow> run_result option" where
  \<comment> \<open>Modelled from the spec: collect, then score unless the data is incomplete.\<close>
  "run retry_request =
     (case collect_PRs_and_issues retry_request init_analyzer of
        None \<Rightarrow> None
      | Some (Inl e) \<Rightarrow> Some (Collector_error e)
      | Some (Inr self) \<Rightarrow>
          if \<not> data_collected self then Some Data_incomplete
          else Some (Scored (calculate_scores (participants self))))"

section \<open>Example items and forges\<close>

definition merged_pr :: item where
  \<comment> \<open>a merged pull request by bob, labelled BUG and Documentation\<close>
  "merged_pr = \<lparr>user_login = Some ''bob'',
       labels = [\<lparr>label_name = Some ''BUG''\<rparr>, \<lparr>label_name = Some ''Documentation''\<rparr>,
                 \<lparr>label_name = None\<rparr>, \<lparr>label_name = Some ''question''\<rparr>],
       state_reason = None, pull_request = Some (Some ''2025-03-01T10:00:00Z'')\<rparr>"

definition unmerged_pr :: item where
  \<comment> \<open>a closed, unmerged pull request by carol\<close>
  "unmerged_pr = \<lparr>user_login = Some ''carol'', labels = [\<lparr>label_name = Some ''bug''\<rparr>],
       state_reason = None, pull_request = Some None\<rparr>"

definition unplanned_issue :: item where
  \<comment> \<open>an issue by carol, closed as not planned\<close>
  "unplanned_issue = \<lparr>user_login = Some ''carol'', labels = [\<lparr>label_name = Some ''enhancement''\<rparr>],
       state_reason = Some ''not_planned'', pull_request = None\<rparr>"

definition one_page :: "nat \<Rightarrow> response" where
  \<comment> \<open>a forge with a single page of three items\<close>
  "one_page p = \<lparr>status_code = 200,
                  json = (if p = 1 then [unmerged_pr, merged_pr, unplanned_issue] else []),
                  link = []\<rparr>"

definition rate_limited :: "nat \<Rightarrow> response" where
  \<comment> \<open>a forge that serves one page, announces a next one and then answers 403\<close>
  "rate_limited p =
     (if p = 1
      then \<lparr>status_code = 200, json = [merged_pr],
            link = ''<https://api.github.com/repos/o/r/issues?page=2>; rel=''
                   @ [CHR 0x22] @ ''next'' @ [CHR 0x22]\<rparr>
      else \<lparr>status_code = 403, json = [], link = []\<rparr>)"

section \<open>Dictionaries and the two loops of the Scorer\<close>

lemma score_participant_intermediate:
  "score_participant a =
     \<lparr>feat_bug_PR = 3 * min (p_fb_of a) (p_valid_of a),
      document_PR = 2 * (p_valid_of a - p_fb_of a),
      feat_bug_issue = 2 * min (i_fb_of a) (i_valid_of a),
      document_issue = i_valid_of a - min (i_fb_of a) (i_valid_of a),
      total = 3 * min (p_fb_of a) (p_valid_of a) + 2 * (p_valid_of a - p_fb_of a)
              + 2 * min (i_fb_of a) (i_valid_of a) + (i_valid_of a - min (i_fb_of a) (i_valid_of a))\<rparr>"
  by (simp add: score_participant_def Let_def p_fb_of_def i_fb_of_def p_valid_of_def i_valid_of_def)

lemma dict_set_fresh: "k \<notin> fst ` set d \<Longrightarrow> dict_set d k v = d @ [(k, v)]"
  unfolding dict_set_def by (induction d) auto

lemma dict_of_pairs_aux:
  "distinct (map fst (d @ kvs)) \<Longrightarrow> foldl (\<lambda>d (k, v). dict_set d k v) d kvs = d @ kvs"
proof (induction kvs arbitrary: d)
  case Nil
  then show ?case by simp
next
  case (Cons kv kvs)
  obtain k v where kv: "kv = (k, v)" by (cases kv)
  have fresh: "k \<notin> fst ` set d" using Cons.prems kv by auto
  have "distinct (map fst ((d @ [(k, v)]) @ kvs))" using Cons.prems kv by simp
  from Cons.IH[OF this] show ?case using fresh kv by (simp add: dict_set_fresh)
qed

lemma dict_of_pairs_distinct: "distinct (map fst kvs) \<Longrightarrow> dict_of_pairs kvs = kvs"
  unfolding dict_of_pairs_def using dict_of_pairs_aux[of "[]" kvs] by simp

lemma score_loop_aux:
  "distinct (map fst scores @ map fst ps) \<Longrightarrow>
   score_loop ps (scores, s) =
     (scores @ map (\<lambda>(p, a). (p, score_participant a)) ps, s + sum_of_totals ps)"
proof (induction ps arbitrary: scores s)
  case Nil
  then show ?case by (simp add: sum_of_totals_def)
next
  case (Cons pa ps)
  obtain p a where pa: "pa = (p, a)" by (cases pa)
  have fresh: "p \<notin> fst ` set scores" using Cons.prems pa by auto
  have "distinct (map fst (scores @ [(p, score_participant a)]) @ map fst ps)"
    using Cons.prems pa by simp
  from Cons.IH[OF this] show ?case using fresh pa
    by (simp add: dict_set_fresh sum_of_totals_def Let_def)
qed

lemma score_loop_distinct:
  "distinct (map fst ps) \<Longrightarrow>
   score_loop ps ([], 0) = (map (\<lambda>(p, a). (p, score_participant a)) ps, sum_of_totals ps)"
  using score_loop_aux[of "[]" ps 0] by simp

lemma round_half_even_error: "\<bar>of_int (round_half_even x) - x\<bar> \<le> 1 / 2"
proof -
  have "of_int \<lfloor>x\<rfloor> \<le> x" "x < of_int \<lfloor>x\<rfloor> + 1" by linarith+
  then show ?thesis
    by (auto simp: round_half_even_def Let_def abs_le_iff not_less)
qed

lemma ulp_pos: "0 < ulp x"
  by (simp add: ulp_def)

lemma round_binary64_error: "\<bar>round_binary64 x - x\<bar> \<le> ulp x / 2"
proof (cases "x = 0")
  case True
  then show ?thesis using ulp_pos[of x] by (simp add: round_binary64_def)
next
  case False
  have "round_binary64 x - x = (of_int (round_half_even (x / ulp x)) - x / ulp x) * ulp x"
    using False ulp_pos[of x] by (simp add: round_binary64_def field_simps)
  then have "\<bar>round_binary64 x - x\<bar> = \<bar>of_int (round_half_even (x / ulp x)) - x / ulp x\<bar> * ulp x"
    using ulp_pos[of x] by (simp add: abs_mult)
  also have "\<dots> \<le> (1 / 2) * ulp x"
    using round_half_even_error[of "x / ulp x"] ulp_pos[of x]
    by (intro mult_right_mono) auto
  finally show ?thesis by simp
qed

lemma bitlen_ge: "0 < n \<Longrightarrow> 2 ^ k \<le> n \<Longrightarrow> int k + 1 \<le> bitlen n"
proof -
  assume n: "0 < n" and k: "(2::int) ^ k \<le> n"
  have "n < 2 ^ nat (bitlen n)" using bitlen_bounds[OF n] by simp
  with k have "(2::int) ^ k < 2 ^ nat (bitlen n)" by linarith
  then have "k < nat (bitlen n)" by (simp add: power_strict_increasing_iff)
  then show ?thesis by linarith
qed

lemma bitlen_le: "0 < n \<Longrightarrow> n < 2 ^ k \<Longrightarrow> bitlen n \<le> int k"
proof -
  assume n: "0 < n" and k: "n < (2::int) ^ k"
  have "2 ^ nat (bitlen n - 1) \<le> n" using bitlen_bounds[OF n] by simp
  with k have "(2::int) ^ nat (bitlen n - 1) < 2 ^ k" by linarith
  then have "nat (bitlen n - 1) < k" by (simp add: power_strict_increasing_iff)
  then show ?thesis by linarith
qed

lemma exponent_le:
  assumes "x \<noteq> 0" and "\<bar>x\<bar> < 2 powi (m + 1)"
  shows "exponent x \<le> m"
proof (cases "1 \<le> \<bar>x\<bar>")
  case True
  define n where "n = \<lfloor>\<bar>x\<bar>\<rfloor>"
  have n1: "1 \<le> n" using True by (simp add: n_def le_floor_iff)
  have "(1::rat) < 2 powi (m + 1)" using True assms(2) by linarith
  have m0: "0 \<le> m"
  proof (rule ccontr)
    assume "\<not> 0 \<le> m"
    then have "m + 1 \<le> 0" by simp
    from power_int_increasing[OF this, of "2::rat"] have "(2::rat) powi (m + 1) \<le> 1" by simp
    with \<open>1 < 2 powi (m + 1)\<close> show False by simp
  qed
  have "of_int n \<le> \<bar>x\<bar>" by (simp add: n_def)
  with assms(2) have "(of_int n :: rat) < 2 powi (m + 1)" by linarith
  then have "(of_int n :: rat) < of_int (2 ^ nat (m + 1))"
    using m0 by (simp add: power_int_def)
  then have "n < 2 ^ nat (m + 1)" by (simp only: of_int_less_iff)
  from bitlen_le[OF _ this] n1 have "bitlen n \<le> int (nat (m + 1))" by simp
  then show ?thesis using True m0 by (simp add: exponent_def n_def)
next
  case False
  define c where "c = \<lceil>1 / \<bar>x\<bar>\<rceil>"
  have xpos: "0 < \<bar>x\<bar>" using assms(1) by simp
  have inv1: "1 < 1 / \<bar>x\<bar>" using False xpos by (simp add: field_simps)
  show ?thesis
  proof (cases "0 \<le> m")
    case True
    have "0 \<le> bitlen (c - 1)" by (rule bitlen_nonneg)
    then show ?thesis using False True by (simp add: exponent_def c_def)
  next
    case mneg: False
    define k where "k = nat (- m - 1)"
    have mk: "m + 1 = - int k" using mneg by (simp add: k_def)
    have "\<bar>x\<bar> < 1 / 2 ^ k" using assms(2) unfolding mk by (simp add: power_int_minus_divide)
    then have "2 ^ k < 1 / \<bar>x\<bar>" using xpos by (simp add: field_simps)
    then have "(of_int (2 ^ k) :: rat) < 1 / \<bar>x\<bar>" by simp
    then have "2 ^ k < c" unfolding c_def by (simp only: less_ceiling_iff)
    then have "2 ^ k \<le> c - 1" by simp
    moreover have "0 < c - 1" using inv1 by (simp add: c_def less_ceiling_iff)
    ultimately have "int k + 1 \<le> bitlen (c - 1)" by (intro bitlen_ge)
    then show ?thesis using False mk by (simp add: exponent_def c_def)
  qed
qed

lemma ulp_le:
  assumes "x \<noteq> 0" and "\<bar>x\<bar> < 2 powi (m + 1)" and "- 1022 \<le> m"
  shows "ulp x \<le> 2 powi (m - 52)"
  using exponent_le[OF assms(1,2)] assms(3) unfolding ulp_def
  by (intro power_int_increasing) auto

lemma round_binary64_near:
  assumes "\<bar>x\<bar> < 2 powi (m + 1)" and "- 1022 \<le> m"
  shows "\<bar>round_binary64 x - x\<bar> \<le> 2 powi (m - 53)"
proof (cases "x = 0")
  case True
  then show ?thesis by (simp add: round_binary64_def)
next
  case False
  have "\<bar>round_binary64 x - x\<bar> \<le> ulp x / 2" by (rule round_binary64_error)
  also have "\<dots> \<le> 2 powi (m - 52) / 2" using ulp_le[OF False assms] by simp
  also have "\<dots> = 2 powi (m - 53)"
    using power_int_add[of "2::rat" "m - 53" 1] by simp
  finally show ?thesis .
qed

lemma exponent_ge:
  assumes "2 powi m \<le> \<bar>x\<bar>"
  shows "m \<le> exponent x"
proof (cases "1 \<le> \<bar>x\<bar>")
  case True
  define n where "n = \<lfloor>\<bar>x\<bar>\<rfloor>"
  have n1: "1 \<le> n" using True by (simp add: n_def le_floor_iff)
  show ?thesis
  proof (cases "0 < m")
    case False
    have "int 0 + 1 \<le> bitlen n" using n1 by (intro bitlen_ge) auto
    then show ?thesis using True False by (simp add: exponent_def n_def)
  next
    case mpos: True
    have "(of_int (2 ^ nat m) :: rat) \<le> \<bar>x\<bar>" using assms mpos by (simp add: power_int_def)
    then have "2 ^ nat m \<le> n" unfolding n_def by (simp only: le_floor_iff)
    then have "int (nat m) + 1 \<le> bitlen n" using n1 by (intro bitlen_ge) auto
    then show ?thesis using True mpos by (simp add: exponent_def n_def)
  qed
next
  case False
  define c where "c = \<lceil>1 / \<bar>x\<bar>\<rceil>"
  have "(0::rat) < 2 powi m" by simp
  with assms have xpos: "0 < \<bar>x\<bar>" by linarith
  have inv1: "1 < 1 / \<bar>x\<bar>" using False xpos by (simp add: field_simps)
  have c1: "0 < c - 1" using inv1 by (simp add: c_def less_ceiling_iff)
  have mneg: "m < 0"
  proof (rule ccontr)
    assume "\<not> m < 0"
    then have "0 \<le> m" by simp
    from power_int_increasing[OF this, of "2::rat"] have "1 \<le> (2::rat) powi m" by simp
    with assms False show False by linarith
  qed
  define k where "k = nat (- m)"
  have mk: "m = - int k" using mneg by (simp add: k_def)
  have "1 / 2 ^ k \<le> \<bar>x\<bar>" using assms unfolding mk by (simp add: power_int_minus_divide)
  then have "1 / \<bar>x\<bar> \<le> 2 ^ k" using xpos by (simp add: field_simps)
  then have "1 / \<bar>x\<bar> \<le> of_int (2 ^ k)" by simp
  then have "c \<le> 2 ^ k" unfolding c_def by (simp only: ceiling_le_iff)
  then have "c - 1 < 2 ^ k" by simp
  from bitlen_le[OF c1 this] show ?thesis using False mk by (simp add: exponent_def c_def)
qed

lemma exponent_eqI:
  assumes "2 powi m \<le> \<bar>x\<bar>" and "\<bar>x\<bar> < 2 powi (m + 1)"
  shows "exponent x = m"
proof -
  have "x \<noteq> 0"
  proof
    assume "x = 0"
    with assms(1) have "(2::rat) powi m \<le> 0" by simp
    moreover have "(0::rat) < 2 powi m" by simp
    ultimately show False by linarith
  qed
  from exponent_le[OF this assms(2)] exponent_ge[OF assms(1)] show ?thesis by simp
qed

lemma round_binary64_eqI:
  assumes "2 powi m \<le> \<bar>x\<bar>" and "\<bar>x\<bar> < 2 powi (m + 1)" and "- 1022 \<le> m"
  shows "round_binary64 x = of_int (round_half_even (x / 2 powi (m - 52))) * 2 powi (m - 52)"
proof -
  have "x \<noteq> 0"
  proof
    assume "x = 0"
    with assms(1) have "(2::rat) powi m \<le> 0" by simp
    moreover have "(0::rat) < 2 powi m" by simp
    ultimately show False by linarith
  qed
  then show ?thesis using assms(3) by (simp add: round_binary64_def ulp_def exponent_eqI[OF assms(1,2)])
qed

lemma floor_rat_numeral:
  "\<lfloor>numeral a / numeral b :: rat\<rfloor> = numeral a div numeral b"
  using floor_divide_of_int_eq[of "numeral a" "numeral b", where ?'a = rat] by simp

lemma quotient_18_18: "round_binary64 (1) = 1"
  by (subst round_binary64_eqI[where m = "0"])
     (simp_all add: round_half_even_def Let_def floor_rat_numeral)

lemma percent_18_18: "round_binary64 (100) = 100"
  by (subst round_binary64_eqI[where m = "6"])
     (simp_all add: round_half_even_def Let_def floor_rat_numeral)

lemma tenths_18_18: "round_half_even (1000) = 1000"
  by (simp add: round_half_even_def Let_def floor_rat_numeral)

lemma decimal_18_18: "round_binary64 (100) = 100"
  by (subst round_binary64_eqI[where m = "6"])
     (simp_all add: round_half_even_def Let_def floor_rat_numeral)

lemma rate_18_18: "participation_rate 18 18 = Inr (Fin (100))"
  by (simp add: participation_rate_def int_truediv_def too_large_def
      quotient_18_18 percent_18_18 tenths_18_18 decimal_18_18)

lemma quotient_23_80: "round_binary64 (23 / 80) = 2589569785738035 / 9007199254740992"
  by (subst round_binary64_eqI[where m = "- 2"])
     (simp_all add: round_half_even_def Let_def floor_rat_numeral)

lemma percent_23_80: "round_binary64 (64739244643450875 / 2251799813685248) = 8092405580431359 / 281474976710656"
  by (subst round_binary64_eqI[where m = "4"])
     (simp_all add: round_half_even_def Let_def floor_rat_numeral)

lemma tenths_23_80: "round_half_even (40462027902156795 / 140737488355328) = 287"
  by (simp add: round_half_even_def Let_def floor_rat_numeral)

lemma decimal_23_80: "round_binary64 (287 / 10) = 8078331831595827 / 281474976710656"
  by (subst round_binary64_eqI[where m = "4"])
     (simp_all add: round_half_even_def Let_def floor_rat_numeral)

lemma rate_23_80: "participation_rate 23 80 = Inr (Fin (8078331831595827 / 281474976710656))"
  by (simp add: participation_rate_def int_truediv_def too_large_def
      quotient_23_80 percent_23_80 tenths_23_80 decimal_23_80)

lemma quotient_57_80: "round_binary64 (57 / 80) = 6417629469002957 / 9007199254740992"
  by (subst round_binary64_eqI[where m = "- 1"])
     (simp_all add: round_half_even_def Let_def floor_rat_numeral)

lemma percent_57_80: "round_binary64 (160440736725073925 / 2251799813685248) = 285 / 4"
  by (subst round_binary64_eqI[where m = "6"])
     (simp_all add: round_half_even_def Let_def floor_rat_numeral)

lemma tenths_57_80: "round_half_even (1425 / 2) = 712"
  by (simp add: round_half_even_def Let_def floor_rat_numeral)

lemma decimal_57_80: "round_binary64 (356 / 5) = 5010254585449677 / 70368744177664"
  by (subst round_binary64_eqI[where m = "6"])
     (simp_all add: round_half_even_def Let_def floor_rat_numeral)

lemma rate_57_80: "participation_rate 57 80 = Inr (Fin (5010254585449677 / 70368744177664))"
  by (simp add: participation_rate_def int_truediv_def too_large_def
      quotient_57_80 percent_57_80 tenths_57_80 decimal_57_80)

lemma quotient_3_18: "round_binary64 (1 / 6) = 6004799503160661 / 36028797018963968"
  by (subst round_binary64_eqI[where m = "- 3"])
     (simp_all add: round_half_even_def Let_def floor_rat_numeral)

lemma percent_3_18: "round_binary64 (150119987579016525 / 9007199254740992) = 2345624805922133 / 140737488355328"
  by (subst round_binary64_eqI[where m = "4"])
     (simp_all add: round_half_even_def Let_def floor_rat_numeral)

lemma tenths_3_18: "round_half_even (11728124029610665 / 70368744177664) = 167"
  by (simp add: round_half_even_def Let_def floor_rat_numeral)

lemma decimal_3_18: "round_binary64 (167 / 10) = 4700632111067955 / 281474976710656"
  by (subst round_binary64_eqI[where m = "4"])
     (simp_all add: round_half_even_def Let_def floor_rat_numeral)

lemma rate_3_18: "participation_rate 3 18 = Inr (Fin (4700632111067955 / 281474976710656))"
  by (simp add: participation_rate_def int_truediv_def too_large_def
      quotient_3_18 percent_3_18 tenths_3_18 decimal_3_18)

lemma spec_quotient_23_80: "round_binary64 (115 / 4) = 115 / 4"
  by (subst round_binary64_eqI[where m = "4"])
     (simp_all add: round_half_even_def Let_def floor_rat_numeral)

lemma spec_tenths_23_80: "round_half_even (575 / 2) = 288"
  by (simp add: round_half_even_def Let_def floor_rat_numeral)

lemma spec_decimal_23_80: "round_binary64 (144 / 5) = 8106479329266893 / 281474976710656"
  by (subst round_binary64_eqI[where m = "4"])
     (simp_all add: round_half_even_def Let_def floor_rat_numeral)

lemma spec_rate_23_80: "spec_rate 23 80 = Inr (Fin (8106479329266893 / 281474976710656))"
  by (simp add: spec_rate_def int_truediv_def too_large_def
      spec_quotient_23_80 spec_tenths_23_80 spec_decimal_23_80)

lemma participation_rate_bounded:
  assumes "0 \<le> t" and "t \<le> s" and "0 < s"
  shows "\<exists>r. participation_rate t s = Inr (Fin r)
            \<and> \<bar>r - 100 * of_int t / of_int s\<bar> \<le> 1 / 20 + 1 / 2 ^ 45"
proof -
  define x :: rat where "x = of_int t / of_int s"
  define y where "y = round_binary64 x"
  define z where "z = round_binary64 (y * 100)"
  define w :: rat where "w = of_int (round_half_even (z * 10)) / 10"
  define r where "r = round_binary64 w"
  have x01: "0 \<le> x" "x \<le> 1" using assms by (simp_all add: x_def)
  have small: "(1::rat) / 2 ^ 53 \<le> 1 / 1000" "(100::rat) / 2 ^ 53 \<le> 1 / 1000"
    "(1::rat) / 2 ^ 47 \<le> 1 / 1000" by simp_all
  have "\<bar>x\<bar> < 2 powi (0 + 1)" using x01 by simp
  from round_binary64_near[OF this] have yx: "\<bar>y - x\<bar> \<le> 1 / 2 ^ 53"
    by (simp add: y_def power_int_minus_divide)
  have ysmall: "\<bar>y\<bar> \<le> 2" using yx x01 small by linarith
  have ny: "\<not> too_large y" using ysmall by (simp add: too_large_def)
  have y100: "\<bar>y * 100 - 100 * x\<bar> \<le> 100 / 2 ^ 53" using yx by linarith
  have "\<bar>y * 100\<bar> < 128" using y100 x01 small by linarith
  then have "\<bar>y * 100\<bar> < 2 powi (6 + 1)" by simp
  from round_binary64_near[OF this] have zy: "\<bar>z - y * 100\<bar> \<le> 1 / 2 ^ 47"
    by (simp add: z_def power_int_minus_divide)
  have zsmall: "\<bar>z\<bar> \<le> 101" using zy y100 x01 small by linarith
  have nz: "\<not> too_large z" using zsmall by (simp add: too_large_def)
  have "\<bar>of_int (round_half_even (z * 10)) - z * 10\<bar> \<le> 1 / 2"
    by (rule round_half_even_error)
  then have wz: "\<bar>w - z\<bar> \<le> 1 / 20" unfolding w_def by linarith
  have "\<bar>w\<bar> < 128" using wz zsmall by linarith
  then have "\<bar>w\<bar> < 2 powi (6 + 1)" by simp
  from round_binary64_near[OF this] have rw: "\<bar>r - w\<bar> \<le> 1 / 2 ^ 47"
    by (simp add: r_def power_int_minus_divide)
  have "\<bar>r - 100 * x\<bar> \<le> 1 / 2 ^ 47 + 1 / 20 + 1 / 2 ^ 47 + 100 / 2 ^ 53"
    using rw wz zy y100 by linarith
  also have "\<dots> \<le> 1 / 20 + 1 / 2 ^ 45" by simp
  finally have bound: "\<bar>r - 100 * of_int t / of_int s\<bar> \<le> 1 / 20 + 1 / 2 ^ 45"
    by (simp add: x_def)
  have "participation_rate t s = Inr (Fin r)"
    using assms(3) ny nz
    by (simp add: participation_rate_def int_truediv_def Let_def x_def[symmetric]
        y_def[symmetric] z_def[symmetric] w_def[symmetric] r_def[symmetric])
  with bound show ?thesis by blast
qed

lemma rate_loop_Inr: "rate_loop bs s = Inr out \<Longrightarrow> list_all2 (rated s) bs out"
proof (induction bs arbitrary: out)
  case Nil
  then show ?case by simp
next
  case (Cons pb bs)
  obtain p b where pb: "pb = (p, b)" by (cases pb)
  from Cons.prems pb obtain r rest' where
    r: "participation_rate (total b) s = Inr r" and
    rest: "rate_loop bs s = Inr rest'" and
    out: "out = (p, breakdown.extend b \<lparr>rate = r\<rparr>) # rest'"
    by (auto split: sum.splits)
  have "rated s (p, b) (p, breakdown.extend b \<lparr>rate = r\<rparr>)"
    using r by (simp add: rated_def breakdown.defs)
  with Cons.IH[OF rest] show ?case by (simp add: pb out)
qed

lemma rate_loop_returns:
  "\<forall>pb \<in> set bs. \<exists>r. participation_rate (total (snd pb)) s = Inr r \<Longrightarrow>
   \<exists>out. rate_loop bs s = Inr out"
proof (induction bs)
  case Nil
  then show ?case by simp
next
  case (Cons pb bs)
  obtain p b where pb: "pb = (p, b)" by (cases pb)
  from Cons.prems pb obtain r where r: "participation_rate (total b) s = Inr r" by auto
  from Cons have "\<exists>out. rate_loop bs s = Inr out" by simp
  then obtain rest' where "rate_loop bs s = Inr rest'" ..
  with r show ?case by (simp add: pb)
qed

lemma sorted_reverse_set [simp]: "set (sorted_reverse f xs) = set xs"
  by (simp add: sorted_reverse_def)

lemma sorted_reverse_length [simp]: "length (sorted_reverse f xs) = length xs"
  by (simp add: sorted_reverse_def)

lemma sorted_reverse_distinct_keys:
  "distinct (map fst xs) \<Longrightarrow> distinct (map fst (sorted_reverse f xs))"
  by (simp add: sorted_reverse_def distinct_map)

lemma sorted_reverse_descending:
  "sorted_wrt (\<lambda>x y. f y \<le> f x) (sorted_reverse f xs)"
proof -
  have "sorted (map f (sort_key f (rev xs)))" by (rule sorted_sort_key)
  then have "sorted_wrt (\<lambda>x y. f x \<le> f y) (sort_key f (rev xs))"
    by (simp add: sorted_map)
  then show ?thesis by (simp add: sorted_reverse_def sorted_wrt_rev)
qed

lemma sorted_reverse_stable:
  "filter (\<lambda>x. f x = k) (sorted_reverse f xs) = filter (\<lambda>x. f x = k) xs"
proof -
  have "filter (\<lambda>x. f x = k) (sorted_reverse f xs)
          = rev (filter (\<lambda>x. f x = k) (sort_key f (rev xs)))"
    by (simp add: sorted_reverse_def rev_filter)
  also have "\<dots> = rev (filter (\<lambda>x. f x = k) (rev xs))"
    by (simp only: sort_key_stable)
  also have "\<dots> = filter (\<lambda>x. f x = k) xs" by (simp add: rev_filter)
  finally show ?thesis .
qed

lemma list_all2_rated_keys: "list_all2 (rated s) bs out \<Longrightarrow> map fst out = map fst bs"
  by (induction rule: list_all2_induct) (simp_all add: rated_def)

lemma calculate_scores_Inr:
  assumes "distinct (map fst ps)" and "calculate_scores ps = Inr out"
  shows "\<exists>rs. list_all2 (rated (sum_of_totals ps)) (map (\<lambda>(p, a). (p, score_participant a)) ps) rs
              \<and> out = sorted_reverse (\<lambda>x. total (snd x)) rs"
proof -
  from assms obtain rs where
    rs: "rate_loop (map (\<lambda>(p, a). (p, score_participant a)) ps) (sum_of_totals ps) = Inr rs" and
    out: "out = dict_of_pairs (sorted_reverse (\<lambda>x. total (snd x)) rs)"
    by (auto simp: calculate_scores_def score_loop_distinct split: sum.splits)
  have r: "list_all2 (rated (sum_of_totals ps)) (map (\<lambda>(p, a). (p, score_participant a)) ps) rs"
    by (rule rate_loop_Inr[OF rs])
  have "map fst rs = map fst ps"
    using list_all2_rated_keys[OF r] by (simp add: case_prod_unfold comp_def)
  then have "distinct (map fst (sorted_reverse (\<lambda>x. total (snd x)) rs))"
    using assms(1) by (simp add: sorted_reverse_distinct_keys)
  then have "out = sorted_reverse (\<lambda>x. total (snd x)) rs"
    using out by (simp add: dict_of_pairs_distinct)
  with r show ?thesis by blast
qed

lemma calculate_scores_returns_iff:
  assumes "distinct (map fst ps)"
  shows "(\<exists>out. calculate_scores ps = Inr out)
           \<longleftrightarrow> (\<exists>rs. rate_loop (map (\<lambda>(p, a). (p, score_participant a)) ps) (sum_of_totals ps) = Inr rs)"
  using assms by (auto simp: calculate_scores_def score_loop_distinct split: sum.splits)

lemma dict_get_nonneg:
  "list_all (\<lambda>(k, n). 0 \<le> n) a \<Longrightarrow> (0::int) \<le> dict_get a k 0"
  by (auto simp: dict_get_def list_all_iff split: option.splits dest!: map_of_SomeD)

lemma total_nonneg:
  assumes "list_all (\<lambda>(k, n). 0 \<le> n) a"
  shows "0 \<le> total (score_participant a)"
proof -
  note nn = dict_get_nonneg[OF assms]
  have "0 \<le> p_fb_of a" "0 \<le> i_fb_of a"
    using nn[of "''p_enhancement''"] nn[of "''p_bug''"] nn[of "''i_enhancement''"] nn[of "''i_bug''"]
    by (simp_all add: p_fb_of_def i_fb_of_def)
  moreover have "p_fb_of a \<le> p_valid_of a"
    using nn[of "''p_documentation''"] by (simp add: p_valid_of_def)
  moreover have "0 \<le> i_fb_of a + dict_get a ''i_documentation'' 0"
    using nn[of "''i_documentation''"] \<open>0 \<le> i_fb_of a\<close> by simp
  then have "0 \<le> i_valid_of a" using \<open>p_fb_of a \<le> p_valid_of a\<close> \<open>0 \<le> p_fb_of a\<close>
    by (simp add: i_valid_of_def)
  ultimately show ?thesis
    by (simp add: score_participant_intermediate min_def)
qed

lemma sum_of_totals_bounds:
  assumes "nonneg_counts ps" and "(p, a) \<in> set ps"
  shows "0 \<le> total (score_participant a)" and "total (score_participant a) \<le> sum_of_totals ps"
proof -
  have all: "\<forall>x \<in> set (map (\<lambda>(p, a). total (score_participant a)) ps). 0 \<le> x"
    using assms(1) by (auto simp: nonneg_counts_def list_all_iff intro!: total_nonneg)
  have mem: "total (score_participant a) \<in> set (map (\<lambda>(p, a). total (score_participant a)) ps)"
    using assms(2) by force
  show "0 \<le> total (score_participant a)" using all mem by blast
  show "total (score_participant a) \<le> sum_of_totals ps"
    unfolding sum_of_totals_def using all mem by (intro member_le_sum_list) auto
qed

lemma participation_rate_returns:
  assumes "0 \<le> t" and "t \<le> s"
  shows "\<exists>r. participation_rate t s = Inr (Fin r)"
proof (cases "0 < s")
  case True
  from participation_rate_bounded[OF assms True] show ?thesis by blast
next
  case False
  then show ?thesis by (simp add: participation_rate_def)
qed

lemma calculate_scores_returns:
  assumes "distinct (map fst ps)" and "nonneg_counts ps"
  shows "\<exists>out. calculate_scores ps = Inr out"
proof -
  have "\<forall>pb \<in> set (map (\<lambda>(p, a). (p, score_participant a)) ps).
          \<exists>r. participation_rate (total (snd pb)) (sum_of_totals ps) = Inr r"
  proof
    fix pb assume "pb \<in> set (map (\<lambda>(p, a). (p, score_participant a)) ps)"
    then obtain p a where pa: "(p, a) \<in> set ps" and pb: "pb = (p, score_participant a)" by auto
    from participation_rate_returns[OF sum_of_totals_bounds[OF assms(2) pa]]
    show "\<exists>r. participation_rate (total (snd pb)) (sum_of_totals ps) = Inr r"
      by (auto simp: pb)
  qed
  from rate_loop_returns[OF this] show ?thesis
    using calculate_scores_returns_iff[OF assms(1)] by simp
qed

lemma list_all2_memberD:
  "list_all2 P xs ys \<Longrightarrow> x \<in> set xs \<Longrightarrow> \<exists>y \<in> set ys. P x y"
  by (induction rule: list_all2_induct) auto

lemma list_all2_memberD2:
  "list_all2 P xs ys \<Longrightarrow> y \<in> set ys \<Longrightarrow> \<exists>x \<in> set xs. P x y"
  by (induction rule: list_all2_induct) auto

lemma calculate_scores_entry:
  assumes "distinct (map fst ps)" and "calculate_scores ps = Inr out" and "(p, a) \<in> set ps"
  shows "\<exists>sc. map_of out p = Some sc \<and> breakdown.truncate sc = score_participant a
              \<and> participation_rate (total (score_participant a)) (sum_of_totals ps) = Inr (rate sc)"
proof -
  from calculate_scores_Inr[OF assms(1,2)] obtain rs where
    rs: "list_all2 (rated (sum_of_totals ps)) (map (\<lambda>(p, a). (p, score_participant a)) ps) rs" and
    out: "out = sorted_reverse (\<lambda>x. total (snd x)) rs" by blast
  have "(p, score_participant a) \<in> set (map (\<lambda>(p, a). (p, score_participant a)) ps)"
    using assms(3) by force
  from list_all2_memberD[OF rs this] obtain psc where
    mem: "psc \<in> set rs" and r: "rated (sum_of_totals ps) (p, score_participant a) psc" by blast
  obtain q sc where psc: "psc = (q, sc)" by (cases psc)
  have q: "q = p" using r by (simp add: rated_def psc)
  have "map fst rs = map fst ps"
    using list_all2_rated_keys[OF rs] by (simp add: case_prod_unfold comp_def)
  then have "distinct (map fst out)"
    using assms(1) by (simp add: out sorted_reverse_distinct_keys)
  moreover have "(p, sc) \<in> set out" using mem by (simp add: out psc q)
  ultimately have "map_of out p = Some sc" by simp
  then show ?thesis using r by (auto simp: rated_def psc)
qed

lemma calculate_scores_member:
  assumes "distinct (map fst ps)" and "calculate_scores ps = Inr out" and "(p, sc) \<in> set out"
  shows "\<exists>a. (p, a) \<in> set ps \<and> breakdown.truncate sc = score_participant a
              \<and> participation_rate (total sc) (sum_of_totals ps) = Inr (rate sc)"
proof -
  from calculate_scores_Inr[OF assms(1,2)] obtain rs where
    rs: "list_all2 (rated (sum_of_totals ps)) (map (\<lambda>(p, a). (p, score_participant a)) ps) rs" and
    out: "out = sorted_reverse (\<lambda>x. total (snd x)) rs" by blast
  have "(p, sc) \<in> set rs" using assms(3) by (simp add: out)
  from list_all2_memberD2[OF rs this] obtain pb where
    mem: "pb \<in> set (map (\<lambda>(p, a). (p, score_participant a)) ps)" and
    r: "rated (sum_of_totals ps) pb (p, sc)" by blast
  from mem obtain q a where qa: "(q, a) \<in> set ps" and pb: "pb = (q, score_participant a)" by auto
  have "total sc = total (breakdown.truncate sc)" by (simp add: breakdown.defs)
  then show ?thesis using r qa by (auto simp: rated_def pb)
qed

lemma dict_get_fill_missing: "k \<in> set bucket_keys \<Longrightarrow> dict_get (fill_missing a) k 0 = dict_get a k (0::int)"
  by (auto simp: dict_get_def fill_missing_def dict_has_def map_of_append map_of_eq_None_iff image_iff
      split: option.splits dest!: map_of_SomeD)

lemma score_participant_fill_missing: "score_participant (fill_missing a) = score_participant a"
proof -
  have "dict_get (fill_missing a) ''p_enhancement'' 0 = dict_get a ''p_enhancement'' 0"
    "dict_get (fill_missing a) ''p_bug'' 0 = dict_get a ''p_bug'' 0"
    "dict_get (fill_missing a) ''p_documentation'' 0 = dict_get a ''p_documentation'' 0"
    "dict_get (fill_missing a) ''i_enhancement'' 0 = dict_get a ''i_enhancement'' 0"
    "dict_get (fill_missing a) ''i_bug'' 0 = dict_get a ''i_bug'' 0"
    "dict_get (fill_missing a) ''i_documentation'' 0 = dict_get a ''i_documentation'' 0"
    by (rule dict_get_fill_missing, simp add: bucket_keys_def)+
  then show ?thesis unfolding score_participant_def by (simp only:)
qed

lemma score_loop_map:
  assumes "\<And>a. score_participant (g a) = score_participant a"
  shows "score_loop (map (\<lambda>(p, a). (p, g a)) ps) acc = score_loop ps acc"
proof (induction ps arbitrary: acc)
  case Nil
  then show ?case by simp
next
  case (Cons pa ps)
  obtain p a where pa: "pa = (p, a)" by (cases pa)
  obtain scores s where acc: "acc = (scores, s)" by (cases acc)
  show ?case using Cons.IH by (simp add: pa acc assms)
qed

lemma participation_rate_no_zero_division: "participation_rate t s \<noteq> Inl ZeroDivisionError"
  by (auto simp: participation_rate_def int_truediv_def Let_def split: sum.splits)

lemma rate_loop_no_zero_division: "rate_loop bs s \<noteq> Inl ZeroDivisionError"
proof (induction bs)
  case Nil
  then show ?case by simp
next
  case (Cons pb bs)
  obtain p b where pb: "pb = (p, b)" by (cases pb)
  show ?case using Cons participation_rate_no_zero_division[of "total b" s]
    by (auto simp: pb split: sum.splits)
qed

lemma calculate_scores_no_zero_division: "calculate_scores ps \<noteq> Inl ZeroDivisionError"
proof -
  obtain scores s where sl: "score_loop ps ([], 0) = (scores, s)"
    by (cases "score_loop ps ([], 0)")
  show ?thesis using rate_loop_no_zero_division[of scores s]
    by (auto simp: calculate_scores_def sl split: sum.splits)
qed

lemma score_participant_spec:
  "score_participant a =
     spec_breakdown (dict_get a ''p_enhancement'' 0) (dict_get a ''p_bug'' 0)
       (dict_get a ''p_documentation'' 0) (dict_get a ''i_enhancement'' 0)
       (dict_get a ''i_bug'' 0) (dict_get a ''i_documentation'' 0)"
  by (simp only: score_participant_def spec_breakdown_def Let_def)

lemma calculate_scores_single:
  "calculate_scores [(p, a)] =
     (case participation_rate (total (score_participant a)) (total (score_participant a)) of
        Inl e \<Rightarrow> Inl e
      | Inr r \<Rightarrow> Inr [(p, breakdown.extend (score_participant a) \<lparr>rate = r\<rparr>)])"
  by (simp add: calculate_scores_def dict_set_def sorted_reverse_def dict_of_pairs_def Let_def
      split: sum.splits)

lemma scenario_score:
  "score_participant [(''p_enhancement'', 2), (''p_bug'', 0), (''p_documentation'', 10),
                      (''i_enhancement'', 0), (''i_bug'', 0), (''i_documentation'', 0)]
   = \<lparr>feat_bug_PR = 6, document_PR = 12, feat_bug_issue = 0, document_issue = 0, total = 18\<rparr>"
  by (simp add: score_participant_intermediate p_fb_of_def i_fb_of_def p_valid_of_def
      i_valid_of_def dict_get_def)

lemma scenario:
  "calculate_scores
           [(p, [(''p_enhancement'', 2), (''p_bug'', 0), (''p_documentation'', 10),
                 (''i_enhancement'', 0), (''i_bug'', 0), (''i_documentation'', 0)])]
         = Inr [(p, \<lparr>feat_bug_PR = 6, document_PR = 12, feat_bug_issue = 0, document_issue = 0,
                     total = 18, rate = Fin 100\<rparr>)]"
  by (simp add: calculate_scores_single scenario_score rate_18_18 breakdown.defs)

lemma spec_total_sum:
  "total (spec_breakdown pe pb pd ie ib idoc) =
     feat_bug_PR (spec_breakdown pe pb pd ie ib idoc) + document_PR (spec_breakdown pe pb pd ie ib idoc)
     + feat_bug_issue (spec_breakdown pe pb pd ie ib idoc) + document_issue (spec_breakdown pe pb pd ie ib idoc)"
  by (simp only: spec_breakdown_def Let_def breakdown.simps)

lemma scored_keys: "map fst (map (\<lambda>(p, a). (p, score_participant a)) ps) = map fst ps"
  by (induction ps) auto

lemma sum_list_insort_key:
  "sum_list (map g (insort_key f x xs)) = g x + sum_list (map g xs)" for g :: "'a \<Rightarrow> int"
  by (induction xs) auto

lemma sum_list_sort_key:
  "sum_list (map g (sort_key f xs)) = sum_list (map g xs)" for g :: "'a \<Rightarrow> int"
  by (induction xs) (auto simp: sum_list_insort_key)

lemma sum_list_sorted_reverse:
  "sum_list (map g (sorted_reverse f xs)) = sum_list (map g xs)" for g :: "'a \<Rightarrow> int"
proof -
  have "sum_list (map g (sorted_reverse f xs)) = sum_list (rev (map g (sort_key f (rev xs))))"
    by (simp only: sorted_reverse_def rev_map)
  also have "\<dots> = sum_list (map g (rev xs))" by (simp only: sum_list_rev sum_list_sort_key)
  also have "\<dots> = sum_list (map g xs)" by (simp only: rev_map[symmetric] sum_list_rev)
  finally show ?thesis .
qed

lemma rated_total:
  assumes "rated s pb psc"
  shows "total (snd psc) = total (snd pb)"
proof -
  have "total (breakdown.truncate (snd psc)) = total (snd psc)" by (simp add: breakdown.defs)
  moreover have "breakdown.truncate (snd psc) = snd pb" using assms by (simp add: rated_def)
  ultimately show ?thesis by simp
qed

lemma rated_sum:
  "list_all2 (rated s) bs rs \<Longrightarrow>
   sum_list (map (\<lambda>x. total (snd x)) rs) = sum_list (map (\<lambda>x. total (snd x)) bs)"
proof (induction rule: list_all2_induct)
  case Nil
  then show ?case by simp
next
  case (Cons pb bs psc rs)
  from rated_total[OF Cons.hyps(1)] Cons.IH show ?case by simp
qed

lemma rated_filter_keys:
  "list_all2 (rated s) bs rs \<Longrightarrow>
   map fst (filter (\<lambda>x. total (snd x) = k) rs) = map fst (filter (\<lambda>x. total (snd x) = k) bs)"
proof (induction rule: list_all2_induct)
  case Nil
  then show ?case by simp
next
  case (Cons pb bs psc rs)
  have "fst psc = fst pb" using Cons.hyps(1) by (simp add: rated_def)
  with rated_total[OF Cons.hyps(1)] Cons.IH show ?case by simp
qed

lemma scored_sum:
  "sum_list (map (\<lambda>x. total (snd x)) (map (\<lambda>(p, a). (p, score_participant a)) ps)) = sum_of_totals ps"
  unfolding sum_of_totals_def by (induction ps) auto

lemma scored_filter_keys:
  "map fst (filter (\<lambda>x. total (snd x) = k) (map (\<lambda>(p, a). (p, score_participant a)) ps))
     = map fst (filter (\<lambda>(p, a). total (score_participant a) = k) ps)"
proof (induction ps)
  case Nil
  then show ?case by simp
next
  case (Cons pa ps)
  obtain p a where pa: "pa = (p, a)" by (cases pa)
  show ?case using Cons.IH by (simp add: pa)
qed

lemma calculate_scores_sum:
  assumes "distinct (map fst ps)" and "calculate_scores ps = Inr out"
  shows "sum_list (map (\<lambda>x. total (snd x)) out) = sum_of_totals ps"
proof -
  from calculate_scores_Inr[OF assms] obtain rs where
    rs: "list_all2 (rated (sum_of_totals ps)) (map (\<lambda>(p, a). (p, score_participant a)) ps) rs" and
    out: "out = sorted_reverse (\<lambda>x. total (snd x)) rs" by blast
  show ?thesis unfolding out by (simp only: sum_list_sorted_reverse rated_sum[OF rs] scored_sum)
qed

lemma participation_rate_nonpositive: "s \<le> 0 \<Longrightarrow> participation_rate t s = Inr (Fin 0)"
  by (simp add: participation_rate_def)

lemma calculate_scores_returns_nonpositive:
  assumes "distinct (map fst ps)" and "sum_of_totals ps \<le> 0"
  shows "\<exists>out. calculate_scores ps = Inr out"
proof -
  have "\<forall>pb \<in> set (map (\<lambda>(p, a). (p, score_participant a)) ps).
          \<exists>r. participation_rate (total (snd pb)) (sum_of_totals ps) = Inr r"
    using participation_rate_nonpositive[OF assms(2)] by blast
  from rate_loop_returns[OF this] show ?thesis
    using calculate_scores_returns_iff[OF assms(1)] by simp
qed

lemma quotient_3_12: "round_binary64 (1 / 4) = 1 / 4"
  by (subst round_binary64_eqI[where m = "- 2"])
     (simp_all add: round_half_even_def Let_def floor_rat_numeral)

lemma percent_3_12: "round_binary64 (25) = 25"
  by (subst round_binary64_eqI[where m = "4"])
     (simp_all add: round_half_even_def Let_def floor_rat_numeral)

lemma tenths_3_12: "round_half_even (250) = 250"
  by (simp add: round_half_even_def Let_def floor_rat_numeral)

lemma decimal_3_12: "round_binary64 (25) = 25"
  by (subst round_binary64_eqI[where m = "4"])
     (simp_all add: round_half_even_def Let_def floor_rat_numeral)

lemma rate_3_12: "participation_rate 3 12 = Inr (Fin (25))"
  by (simp add: participation_rate_def int_truediv_def too_large_def
      quotient_3_12 percent_3_12 tenths_3_12 decimal_3_12)

lemma quotient_6_12: "round_binary64 (1 / 2) = 1 / 2"
  by (subst round_binary64_eqI[where m = "- 1"])
     (simp_all add: round_half_even_def Let_def floor_rat_numeral)

lemma percent_6_12: "round_binary64 (50) = 50"
  by (subst round_binary64_eqI[where m = "5"])
     (simp_all add: round_half_even_def Let_def floor_rat_numeral)

lemma tenths_6_12: "round_half_even (500) = 500"
  by (simp add: round_half_even_def Let_def floor_rat_numeral)

lemma decimal_6_12: "round_binary64 (50) = 50"
  by (subst round_binary64_eqI[where m = "5"])
     (simp_all add: round_half_even_def Let_def floor_rat_numeral)

lemma rate_6_12: "participation_rate 6 12 = Inr (Fin (50))"
  by (simp add: participation_rate_def int_truediv_def too_large_def
      quotient_6_12 percent_6_12 tenths_6_12 decimal_6_12)

lemma score_u: "score_participant [(''p_enhancement'', 7), (''i_enhancement'', 1)]
   = \<lparr>feat_bug_PR = 21, document_PR = 0, feat_bug_issue = 2, document_issue = 0, total = 23\<rparr>"
  by (simp add: score_participant_intermediate p_fb_of_def i_fb_of_def p_valid_of_def
      i_valid_of_def dict_get_def)

lemma score_v: "score_participant [(''p_enhancement'', 19)]
   = \<lparr>feat_bug_PR = 57, document_PR = 0, feat_bug_issue = 0, document_issue = 0, total = 57\<rparr>"
  by (simp add: score_participant_intermediate p_fb_of_def i_fb_of_def p_valid_of_def
      i_valid_of_def dict_get_def)

lemma two_participants:
  "calculate_scores [(''u'', [(''p_enhancement'', 7), (''i_enhancement'', 1)]),
                     (''v'', [(''p_enhancement'', 19)])]
   = Inr [(''v'', \<lparr>feat_bug_PR = 57, document_PR = 0, feat_bug_issue = 0, document_issue = 0,
                    total = 57, rate = Fin (5010254585449677 / 70368744177664)\<rparr>),
          (''u'', \<lparr>feat_bug_PR = 21, document_PR = 0, feat_bug_issue = 2, document_issue = 0,
                    total = 23, rate = Fin (8078331831595827 / 281474976710656)\<rparr>)]"
  by (simp add: calculate_scores_def score_u score_v dict_set_def rate_23_80 rate_57_80
      sorted_reverse_def dict_of_pairs_def breakdown.defs Let_def)

lemma score_neg: "score_participant [(''p_enhancement'', - 1)]
   = \<lparr>feat_bug_PR = - 3, document_PR = 0, feat_bug_issue = - 8, document_issue = 0, total = - 11\<rparr>"
  by (simp add: score_participant_intermediate p_fb_of_def i_fb_of_def p_valid_of_def
      i_valid_of_def dict_get_def)

lemma score_normalized_neg: "score_participant (normalized [(''p_enhancement'', - 1)])
   = \<lparr>feat_bug_PR = 0, document_PR = 0, feat_bug_issue = 0, document_issue = 0, total = 0\<rparr>"
  by (simp add: score_participant_intermediate p_fb_of_def i_fb_of_def p_valid_of_def
      i_valid_of_def dict_get_def normalized_def bucket_keys_def)

lemma score_one_feature: "score_participant [(''p_enhancement'', 1)]
   = \<lparr>feat_bug_PR = 3, document_PR = 0, feat_bug_issue = 0, document_issue = 0, total = 3\<rparr>"
  by (simp add: score_participant_intermediate p_fb_of_def i_fb_of_def p_valid_of_def
      i_valid_of_def dict_get_def)

lemma score_two_features: "score_participant [(''p_enhancement'', 2)]
   = \<lparr>feat_bug_PR = 6, document_PR = 0, feat_bug_issue = 0, document_issue = 0, total = 6\<rparr>"
  by (simp add: score_participant_intermediate p_fb_of_def i_fb_of_def p_valid_of_def
      i_valid_of_def dict_get_def)

lemma score_nothing: "score_participant []
   = \<lparr>feat_bug_PR = 0, document_PR = 0, feat_bug_issue = 0, document_issue = 0, total = 0\<rparr>"
  by (simp add: score_participant_intermediate p_fb_of_def i_fb_of_def p_valid_of_def
      i_valid_of_def dict_get_def)

lemma tied_participants:
  "calculate_scores [(''a'', [(''p_enhancement'', 1)]), (''b'', [(''p_enhancement'', 2)]),
                     (''c'', [(''p_enhancement'', 1)])]
   = Inr [(''b'', \<lparr>feat_bug_PR = 6, document_PR = 0, feat_bug_issue = 0, document_issue = 0,
                    total = 6, rate = Fin 50\<rparr>),
          (''a'', \<lparr>feat_bug_PR = 3, document_PR = 0, feat_bug_issue = 0, document_issue = 0,
                    total = 3, rate = Fin 25\<rparr>),
          (''c'', \<lparr>feat_bug_PR = 3, document_PR = 0, feat_bug_issue = 0, document_issue = 0,
                    total = 3, rate = Fin 25\<rparr>)]"
  by (simp add: calculate_scores_def score_one_feature score_two_features dict_set_def
      rate_3_12 rate_6_12 sorted_reverse_def dict_of_pairs_def breakdown.defs Let_def)

lemma six_participants:
  "calculate_scores [(''a'', [(''p_enhancement'', 1)]), (''b'', [(''p_enhancement'', 1)]),
                     (''c'', [(''p_enhancement'', 1)]), (''d'', [(''p_enhancement'', 1)]),
                     (''e'', [(''p_enhancement'', 1)]), (''f'', [(''p_enhancement'', 1)])]
   = Inr (map (\<lambda>p. (p, \<lparr>feat_bug_PR = 3, document_PR = 0, feat_bug_issue = 0, document_issue = 0,
                    total = 3, rate = Fin (4700632111067955 / 281474976710656)\<rparr>))
            [''a'', ''b'', ''c'', ''d'', ''e'', ''f''])"
  by (simp add: calculate_scores_def score_one_feature dict_set_def
      rate_3_18 sorted_reverse_def dict_of_pairs_def breakdown.defs Let_def)

lemma no_participants: "calculate_scores [] = Inr []"
  by (simp add: calculate_scores_def sorted_reverse_def dict_of_pairs_def)

lemma sum_of_totals_two: "sum_of_totals [(''u'', [(''p_enhancement'', 7), (''i_enhancement'', 1)]),
                     (''v'', [(''p_enhancement'', 19)])] = 80"
  by (simp add: sum_of_totals_def score_u score_v)

lemma sum_of_totals_idle: "sum_of_totals [(''w'', [])] = 0"
  by (simp add: sum_of_totals_def score_nothing)

lemma idle_participant:
  "calculate_scores [(''w'', [])]
     = Inr [(''w'', \<lparr>feat_bug_PR = 0, document_PR = 0, feat_bug_issue = 0, document_issue = 0,
                    total = 0, rate = Fin 0\<rparr>)]"
  by (simp add: calculate_scores_single score_nothing participation_rate_nonpositive breakdown.defs)

lemma calculate_scores_keys:
  assumes "distinct (map fst ps)" and "calculate_scores ps = Inr out"
  shows "set (map fst out) = set (map fst ps)" and "distinct (map fst out)"
    and "length out = length ps"
proof -
  from calculate_scores_Inr[OF assms] obtain rs where
    rs: "list_all2 (rated (sum_of_totals ps)) (map (\<lambda>(p, a). (p, score_participant a)) ps) rs" and
    out: "out = sorted_reverse (\<lambda>x. total (snd x)) rs" by blast
  have keys: "map fst rs = map fst ps"
    using list_all2_rated_keys[OF rs] by (simp only: scored_keys)
  show "set (map fst out) = set (map fst ps)"
    unfolding out keys[symmetric] by (simp only: set_map sorted_reverse_set)
  show "distinct (map fst out)"
    unfolding out using assms(1) keys by (intro sorted_reverse_distinct_keys) simp
  show "length out = length ps"
    unfolding out using list_all2_lengthD[OF rs] by simp
qed

lemma sum_list_abs_bound:
  fixes f g :: "'a \<Rightarrow> rat"
  assumes "\<forall>x \<in> set xs. \<bar>f x - g x\<bar> \<le> e"
  shows "\<bar>sum_list (map f xs) - sum_list (map g xs)\<bar> \<le> of_nat (length xs) * e"
  using assms
proof (induction xs)
  case Nil
  then show ?case by simp
next
  case (Cons x xs)
  have "\<bar>f x - g x\<bar> \<le> e" using Cons.prems by simp
  moreover have "\<bar>sum_list (map f xs) - sum_list (map g xs)\<bar> \<le> of_nat (length xs) * e"
    using Cons by simp
  moreover have "of_nat (length (x # xs)) * e = e + of_nat (length xs) * e"
    by (simp add: algebra_simps)
  ultimately show ?case by simp
qed

lemma sum_list_share:
  "sum_list (map (\<lambda>x. 100 * of_int (h x) / of_int s) xs)
     = 100 * of_int (sum_list (map h xs)) / (of_int s :: rat)"
  by (induction xs) (simp_all add: add_divide_distrib distrib_left)

lemma calculate_scores_rate_bound:
  assumes "distinct (map fst ps)" and "nonneg_counts ps" and "0 < sum_of_totals ps"
    and "calculate_scores ps = Inr out" and "x \<in> set out"
  shows "\<exists>r. rate (snd x) = Fin r
            \<and> \<bar>r - 100 * of_int (total (snd x)) / of_int (sum_of_totals ps)\<bar> \<le> 1 / 20 + 1 / 2 ^ 45"
proof -
  obtain p sc where x: "x = (p, sc)" by (cases x)
  from calculate_scores_member[OF assms(1,4)] assms(5) x obtain a where
    a: "(p, a) \<in> set ps" and tr: "breakdown.truncate sc = score_participant a" and
    r: "participation_rate (total sc) (sum_of_totals ps) = Inr (rate sc)" by blast
  have "total (breakdown.truncate sc) = total sc" by (simp add: breakdown.defs)
  then have t: "total sc = total (score_participant a)" using tr by simp
  from sum_of_totals_bounds[OF assms(2) a]
  have "0 \<le> total sc" "total sc \<le> sum_of_totals ps" by (simp_all add: t)
  from participation_rate_bounded[OF this assms(3)] r show ?thesis by (auto simp: x)
qed

lemma sum_of_totals_six: "sum_of_totals [(''a'', [(''p_enhancement'', 1 :: int)]), (''b'', [(''p_enhancement'', 1)]),
        (''c'', [(''p_enhancement'', 1)]), (''d'', [(''p_enhancement'', 1)]),
        (''e'', [(''p_enhancement'', 1)]), (''f'', [(''p_enhancement'', 1)])] = 18"
  by (simp add: sum_of_totals_def score_one_feature)

section \<open>The claims about the Scorer\<close>

text \<open>
  Claim C8.  For every dict of activity counts, the validated issue credit \<open>i_valid\<close> is at
  most four times the validated pull-request credit \<open>p_valid\<close>; \<open>i_valid\<close> is the value
  the two stored issue components are split from.
\<close>

theorem issue_credit_capped:
  "i_valid_of a \<le> 4 * p_valid_of a
   \<and> feat_bug_issue (score_participant a) div 2 + document_issue (score_participant a) = i_valid_of a"
  by (simp add: score_participant_intermediate i_valid_of_def)

text \<open>
  Claim C6 says \<open>p_valid \<ge> p_fb\<close> for all inputs.  A negative documentation count is
  taken as it is: with \<open>p_documentation = -1\<close> and nothing else, \<open>p_valid = -1\<close> is below
  \<open>p_fb = 0\<close> and the stored ``document PR'' component is \<open>-2\<close>.
\<close>

theorem doc_credit_counterexample:
  "p_valid_of [(''p_documentation'', - 1)] < p_fb_of [(''p_documentation'', - 1)]
   \<and> document_PR (score_participant [(''p_documentation'', - 1)]) = - 2"
  by (simp add: score_participant_intermediate p_valid_of_def p_fb_of_def dict_get_def)

text \<open>
  Claim C6, amended.  Whenever the documentation pull-request count is not negative (a
  missing count reads as 0), \<open>p_valid \<ge> p_fb\<close>, so \<open>p_d_at = p_valid - p_fb\<close> and the
  stored ``document PR'' component \<open>2 * p_d_at\<close> are not negative.  The other counts may
  be any integers.
\<close>

theorem doc_credit_never_reduces:
  assumes "0 \<le> dict_get a ''p_documentation'' 0"
  shows "p_fb_of a \<le> p_valid_of a
       \<and> document_PR (score_participant a) = 2 * (p_valid_of a - p_fb_of a)
       \<and> 0 \<le> document_PR (score_participant a)"
  using assms by (simp add: score_participant_intermediate p_valid_of_def)

text \<open>The amended claim C6 at the specification's scenario: \<open>p_fb = 2\<close>, \<open>p_valid = 8\<close>.\<close>

theorem doc_credit_never_reduces_witness:
  "0 \<le> dict_get [(''p_enhancement'', 2), (''p_documentation'', 10)] ''p_documentation'' (0::int)
   \<and> p_fb_of [(''p_enhancement'', 2), (''p_documentation'', 10)] = 2
   \<and> p_valid_of [(''p_enhancement'', 2), (''p_documentation'', 10)] = 8
   \<and> document_PR (score_participant [(''p_enhancement'', 2), (''p_documentation'', 10)]) = 12"
  using doc_credit_never_reduces[of "[(''p_enhancement'', 2), (''p_documentation'', 10)]"]
  by (simp add: p_valid_of_def p_fb_of_def dict_get_def)

text \<open>
  Claim C1.  For every participant of the input dict, the entry that the first loop of
  \<open>calculate_scores\<close> stores is the breakdown of the specification's formula on the
  participant's six counts (a missing count reads as 0): the four components are
  \<open>3 * p_fb_at\<close>, \<open>2 * p_d_at\<close>, \<open>2 * i_fb_at\<close>, \<open>1 * i_d_at\<close> and the total is their
  sum.  Whenever \<open>calculate_scores\<close> returns, the participant's entry of the result
  carries the same five values, and it does return when no count is negative.  The
  scenario with two enhancement and ten documentation pull requests yields total 18.
\<close>

theorem calculate_scores_total_formula:
  assumes "distinct (map fst ps)" and "(p, a) \<in> set ps"
    and "b = spec_breakdown (dict_get a ''p_enhancement'' 0) (dict_get a ''p_bug'' 0)
               (dict_get a ''p_documentation'' 0) (dict_get a ''i_enhancement'' 0)
               (dict_get a ''i_bug'' 0) (dict_get a ''i_documentation'' 0)"
  shows "map_of (fst (score_loop ps ([], 0))) p = Some b
       \<and> total b = feat_bug_PR b + document_PR b + feat_bug_issue b + document_issue b
       \<and> (\<forall>out. calculate_scores ps = Inr out \<longrightarrow>
            (\<exists>sc. map_of out p = Some sc \<and> breakdown.truncate sc = b))
       \<and> (nonneg_counts ps \<longrightarrow> (\<exists>out. calculate_scores ps = Inr out))
       \<and> calculate_scores
           [(p, [(''p_enhancement'', 2), (''p_bug'', 0), (''p_documentation'', 10),
                 (''i_enhancement'', 0), (''i_bug'', 0), (''i_documentation'', 0)])]
         = Inr [(p, \<lparr>feat_bug_PR = 6, document_PR = 12, feat_bug_issue = 0, document_issue = 0,
                     total = 18, rate = Fin 100\<rparr>)]"
proof (intro conjI allI impI)
  have b: "b = score_participant a" unfolding assms(3) by (rule score_participant_spec[symmetric])
  have mem: "(p, b) \<in> set (map (\<lambda>(p, a). (p, score_participant a)) ps)"
    using assms(2) b by force
  have "distinct (map fst (map (\<lambda>(p, a). (p, score_participant a)) ps))"
    using assms(1) by (simp only: scored_keys)
  from map_of_is_SomeI[OF this mem]
  show "map_of (fst (score_loop ps ([], 0))) p = Some b"
    by (simp only: score_loop_distinct[OF assms(1)] fst_conv)
  show "total b = feat_bug_PR b + document_PR b + feat_bug_issue b + document_issue b"
    unfolding assms(3) by (rule spec_total_sum)
  show "\<exists>sc. map_of out p = Some sc \<and> breakdown.truncate sc = b"
    if "calculate_scores ps = Inr out" for out
    using calculate_scores_entry[OF assms(1) that assms(2)] b by blast
  show "\<exists>out. calculate_scores ps = Inr out" if "nonneg_counts ps"
    using calculate_scores_returns[OF assms(1) that] .
  show "calculate_scores
           [(p, [(''p_enhancement'', 2), (''p_bug'', 0), (''p_documentation'', 10),
                 (''i_enhancement'', 0), (''i_bug'', 0), (''i_documentation'', 0)])]
         = Inr [(p, \<lparr>feat_bug_PR = 6, document_PR = 12, feat_bug_issue = 0, document_issue = 0,
                     total = 18, rate = Fin 100\<rparr>)]"
    by (rule scenario)
qed

text \<open>Claim C1 at the scenario's counts, with the absent keys read as 0.\<close>

theorem calculate_scores_total_formula_witness:
  "distinct (map fst [(''u'', [(''p_enhancement'', 2), (''p_documentation'', 10 :: int)])])
   \<and> (''u'', [(''p_enhancement'', 2), (''p_documentation'', 10)])
        \<in> set [(''u'', [(''p_enhancement'', 2), (''p_documentation'', 10 :: int)])]
   \<and> nonneg_counts [(''u'', [(''p_enhancement'', 2), (''p_documentation'', 10)])]
   \<and> map_of (fst (score_loop [(''u'', [(''p_enhancement'', 2), (''p_documentation'', 10)])] ([], 0))) ''u''
        = Some (spec_breakdown 2 0 10 0 0 0)
   \<and> total (spec_breakdown 2 0 10 0 0 0) = 18
   \<and> (\<exists>out. calculate_scores [(''u'', [(''p_enhancement'', 2), (''p_documentation'', 10)])] = Inr out)"
proof -
  let ?a = "[(''p_enhancement'', 2), (''p_documentation'', 10 :: int)]"
  have d: "distinct (map fst [(''u'', ?a)])" by simp
  have m: "(''u'', ?a) \<in> set [(''u'', ?a)]" by simp
  have n: "nonneg_counts [(''u'', ?a)]" by (simp add: nonneg_counts_def)
  have b: "spec_breakdown 2 0 10 0 0 0 =
      spec_breakdown (dict_get ?a ''p_enhancement'' 0) (dict_get ?a ''p_bug'' 0)
        (dict_get ?a ''p_documentation'' 0) (dict_get ?a ''i_enhancement'' 0)
        (dict_get ?a ''i_bug'' 0) (dict_get ?a ''i_documentation'' 0)"
    by (simp add: dict_get_def)
  have t: "total (spec_breakdown 2 0 10 0 0 0) = 18" by (simp add: spec_breakdown_def)
  from calculate_scores_total_formula[OF d m b] d m n t show ?thesis by blast
qed

text \<open>
  Claim C2 says a negative count is normalized to 0.  It is not: with
  \<open>p_enhancement = -1\<close> the result holds the total \<open>-11\<close>, while the same input with the
  negative count replaced by 0 gives the total 0.
\<close>

theorem negative_counts_counterexample:
  "calculate_scores [(''u'', [(''p_enhancement'', - 1)])]
     = Inr [(''u'', \<lparr>feat_bug_PR = - 3, document_PR = 0, feat_bug_issue = - 8,
                      document_issue = 0, total = - 11, rate = Fin 0\<rparr>)]
   \<and> calculate_scores [(''u'', normalized [(''p_enhancement'', - 1)])]
     = Inr [(''u'', \<lparr>feat_bug_PR = 0, document_PR = 0, feat_bug_issue = 0,
                      document_issue = 0, total = 0, rate = Fin 0\<rparr>)]"
  by (simp add: calculate_scores_single score_neg score_normalized_neg
      participation_rate_nonpositive breakdown.defs)

text \<open>
  Claim C2, amended.  A missing key reads as 0: the result of \<open>calculate_scores\<close> is its
  result on the dict in which every missing count is replaced by 0.  Negative counts
  enter the formula as they are.  No error is raised when no count is negative.
\<close>

theorem missing_counts_read_as_zero:
  "calculate_scores (map (\<lambda>(p, a). (p, fill_missing a)) ps) = calculate_scores ps
   \<and> (distinct (map fst ps) \<and> nonneg_counts ps \<longrightarrow> (\<exists>out. calculate_scores ps = Inr out))"
proof
  have "score_loop (map (\<lambda>(p, a). (p, fill_missing a)) ps) ([], 0) = score_loop ps ([], 0)"
    by (rule score_loop_map) (rule score_participant_fill_missing)
  then show "calculate_scores (map (\<lambda>(p, a). (p, fill_missing a)) ps) = calculate_scores ps"
    by (simp only: calculate_scores_def)
  show "distinct (map fst ps) \<and> nonneg_counts ps \<longrightarrow> (\<exists>out. calculate_scores ps = Inr out)"
    using calculate_scores_returns by blast
qed

text \<open>The amended claim C2 on a participant who has one key only.\<close>

theorem missing_counts_read_as_zero_witness:
  "distinct (map fst [(''u'', [(''p_enhancement'', 2 :: int)])])
   \<and> nonneg_counts [(''u'', [(''p_enhancement'', 2)])]
   \<and> fill_missing [(''p_enhancement'', 2)]
       = [(''p_enhancement'', 2), (''p_bug'', 0), (''p_documentation'', 0),
          (''i_enhancement'', 0), (''i_bug'', 0), (''i_documentation'', 0)]
   \<and> calculate_scores [(''u'', fill_missing [(''p_enhancement'', 2)])]
       = calculate_scores [(''u'', [(''p_enhancement'', 2)])]
   \<and> (\<exists>out. calculate_scores [(''u'', [(''p_enhancement'', 2)])] = Inr out)"
proof -
  have d: "distinct (map fst [(''u'', [(''p_enhancement'', 2 :: int)])])" by simp
  have n: "nonneg_counts [(''u'', [(''p_enhancement'', 2)])]" by (simp add: nonneg_counts_def)
  have f: "fill_missing [(''p_enhancement'', 2)]
       = [(''p_enhancement'', 2), (''p_bug'', 0), (''p_documentation'', 0),
          (''i_enhancement'', 0), (''i_bug'', 0), (''i_documentation'', 0)]"
    by (simp add: fill_missing_def bucket_keys_def dict_has_def)
  from missing_counts_read_as_zero[of "[(''u'', [(''p_enhancement'', 2)])]"] d n
  have "calculate_scores [(''u'', fill_missing [(''p_enhancement'', 2)])]
       = calculate_scores [(''u'', [(''p_enhancement'', 2)])]"
    and "\<exists>out. calculate_scores [(''u'', [(''p_enhancement'', 2)])] = Inr out"
    by simp_all
  with d n f show ?thesis by blast
qed

text \<open>
  Claim C3 says the rate is \<open>round(100 * total / sum, 1)\<close>.  The code divides first and
  multiplies the rounded quotient by 100.  With totals 23 and 57 the code's quotient
  \<open>23 / 80\<close> times 100 is the float just below 28.75 and rounds to 28.7, while
  \<open>100 * 23 / 80\<close> is 28.75 exactly and rounds to 28.8.
\<close>

theorem rate_order_counterexample:
  "calculate_scores [(''u'', [(''p_enhancement'', 7), (''i_enhancement'', 1)]),
                     (''v'', [(''p_enhancement'', 19)])]
   = Inr [(''v'', \<lparr>feat_bug_PR = 57, document_PR = 0, feat_bug_issue = 0, document_issue = 0,
                    total = 57, rate = Fin (5010254585449677 / 70368744177664)\<rparr>),
          (''u'', \<lparr>feat_bug_PR = 21, document_PR = 0, feat_bug_issue = 2, document_issue = 0,
                    total = 23, rate = Fin (8078331831595827 / 281474976710656)\<rparr>)]
   \<and> spec_rate 23 (57 + 23) = Inr (Fin (8106479329266893 / 281474976710656))
   \<and> Fin (8078331831595827 / 281474976710656) \<noteq> Fin (8106479329266893 / 281474976710656)"
  using two_participants spec_rate_23_80 by simp

text \<open>
  Claim C3, amended.  With \<open>sum\<close> the sum of all participants' totals: when \<open>sum > 0\<close>
  each rate is \<open>round((total / sum) * 100, 1)\<close> in binary64 arithmetic, the quotient being
  rounded to a float before it is multiplied by 100; when \<open>sum \<le> 0\<close> every rate is 0,
  the call returns, and no division takes place: \<open>calculate_scores\<close> never raises
  \<open>ZeroDivisionError\<close>.
\<close>

theorem rate_of_each_participant:
  assumes "distinct (map fst ps)"
  shows "calculate_scores ps \<noteq> Inl ZeroDivisionError
       \<and> (sum_of_totals ps \<le> 0 \<longrightarrow> (\<exists>out. calculate_scores ps = Inr out))
       \<and> (\<forall>out p sc. calculate_scores ps = Inr out \<and> (p, sc) \<in> set out \<longrightarrow>
            sum_list (map (\<lambda>x. total (snd x)) out) = sum_of_totals ps
            \<and> (0 < sum_of_totals ps \<longrightarrow>
                 (\<exists>q. int_truediv (total sc) (sum_of_totals ps) = Inr q
                      \<and> rate sc = float_round1 (float_mul_int q 100)))
            \<and> (sum_of_totals ps \<le> 0 \<longrightarrow> rate sc = Fin 0))"
proof (intro conjI allI impI)
  show "calculate_scores ps \<noteq> Inl ZeroDivisionError" by (rule calculate_scores_no_zero_division)
  show "\<exists>out. calculate_scores ps = Inr out" if "sum_of_totals ps \<le> 0"
    using calculate_scores_returns_nonpositive[OF assms that] .
next
  fix out p sc
  assume h: "calculate_scores ps = Inr out \<and> (p, sc) \<in> set out"
  then have out: "calculate_scores ps = Inr out" and mem: "(p, sc) \<in> set out" by simp_all
  show "sum_list (map (\<lambda>x. total (snd x)) out) = sum_of_totals ps"
    by (rule calculate_scores_sum[OF assms out])
  from calculate_scores_member[OF assms out mem]
  have r: "participation_rate (total sc) (sum_of_totals ps) = Inr (rate sc)" by blast
  show "\<exists>q. int_truediv (total sc) (sum_of_totals ps) = Inr q
            \<and> rate sc = float_round1 (float_mul_int q 100)"
    if "0 < sum_of_totals ps"
    using r that by (auto simp: participation_rate_def split: sum.splits)
  show "rate sc = Fin 0" if "sum_of_totals ps \<le> 0"
    using r participation_rate_nonpositive[OF that, of "total sc"] by simp
qed

text \<open>
  The amended claim C3 on the two participants with totals 23 and 57, and on a single
  participant without any activity, where the sum of the totals is 0.
\<close>

theorem rate_of_each_participant_witness:
  "distinct (map fst [(''u'', [(''p_enhancement'', 7), (''i_enhancement'', 1 :: int)]),
                      (''v'', [(''p_enhancement'', 19)])])
   \<and> 0 < sum_of_totals [(''u'', [(''p_enhancement'', 7), (''i_enhancement'', 1)]),
                         (''v'', [(''p_enhancement'', 19)])]
   \<and> (\<exists>q. int_truediv 23 80 = Inr q
          \<and> Fin (8078331831595827 / 281474976710656) = float_round1 (float_mul_int q 100))
   \<and> distinct (map fst [(''w'', [] :: activities)])
   \<and> sum_of_totals [(''w'', [])] \<le> 0
   \<and> (\<exists>out. calculate_scores [(''w'', [])] = Inr out)"
proof -
  let ?two = "[(''u'', [(''p_enhancement'', 7), (''i_enhancement'', 1 :: int)]),
               (''v'', [(''p_enhancement'', 19)])]"
  let ?sc = "\<lparr>feat_bug_PR = 21, document_PR = 0, feat_bug_issue = 2, document_issue = 0,
                    total = 23, rate = Fin (8078331831595827 / 281474976710656)\<rparr>"
  have d: "distinct (map fst ?two)" by simp
  have s: "0 < sum_of_totals ?two" by (simp add: sum_of_totals_two)
  have m: "calculate_scores ?two = Inr [(''v'', \<lparr>feat_bug_PR = 57, document_PR = 0,
                 feat_bug_issue = 0, document_issue = 0, total = 57,
                 rate = Fin (5010254585449677 / 70368744177664)\<rparr>), (''u'', ?sc)]
             \<and> (''u'', ?sc) \<in> set [(''v'', \<lparr>feat_bug_PR = 57, document_PR = 0,
                 feat_bug_issue = 0, document_issue = 0, total = 57,
                 rate = Fin (5010254585449677 / 70368744177664)\<rparr>), (''u'', ?sc)]"
    using two_participants by simp
  from rate_of_each_participant[OF d, THEN conjunct2, THEN conjunct2, rule_format, OF m,
      THEN conjunct2, THEN conjunct1, THEN mp, OF s]
  have 1: "\<exists>q. int_truediv 23 80 = Inr q
          \<and> Fin (8078331831595827 / 281474976710656) = float_round1 (float_mul_int q 100)"
    by (simp add: sum_of_totals_two)
  have d0: "distinct (map fst [(''w'', [] :: activities)])" by simp
  have s0: "sum_of_totals [(''w'', [])] \<le> 0" by (simp add: sum_of_totals_idle)
  have 2: "\<exists>out. calculate_scores [(''w'', [])] = Inr out"
    using rate_of_each_participant[OF d0] s0 by blast
  from d s 1 d0 s0 2 show ?thesis by blast
qed

text \<open>
  Claim C4.  The result of \<open>calculate_scores\<close> lists the participants of the input, each
  once, in descending order of total; the participants that share a total appear in the
  order they have in the input dict.
\<close>

theorem calculate_scores_sorted_stable:
  assumes "distinct (map fst ps)"
  shows "(nonneg_counts ps \<longrightarrow> (\<exists>out. calculate_scores ps = Inr out))
       \<and> (\<forall>out. calculate_scores ps = Inr out \<longrightarrow>
            sorted_wrt (\<lambda>x y. total (snd y) \<le> total (snd x)) out
            \<and> set (map fst out) = set (map fst ps) \<and> distinct (map fst out)
            \<and> (\<forall>k. map fst (filter (\<lambda>x. total (snd x) = k) out)
                     = map fst (filter (\<lambda>(p, a). total (score_participant a) = k) ps)))"
proof (intro conjI allI impI)
  show "\<exists>out. calculate_scores ps = Inr out" if "nonneg_counts ps"
    using calculate_scores_returns[OF assms that] .
next
  fix out k
  assume c: "calculate_scores ps = Inr out"
  from calculate_scores_Inr[OF assms c] obtain rs where
    rs: "list_all2 (rated (sum_of_totals ps)) (map (\<lambda>(p, a). (p, score_participant a)) ps) rs" and
    out: "out = sorted_reverse (\<lambda>x. total (snd x)) rs" by blast
  show "sorted_wrt (\<lambda>x y. total (snd y) \<le> total (snd x)) out"
    unfolding out by (rule sorted_reverse_descending)
  show "set (map fst out) = set (map fst ps)" by (rule calculate_scores_keys(1)[OF assms c])
  show "distinct (map fst out)" by (rule calculate_scores_keys(2)[OF assms c])
  have "filter (\<lambda>x. total (snd x) = k) out = filter (\<lambda>x. total (snd x) = k) rs"
    unfolding out by (rule sorted_reverse_stable)
  then show "map fst (filter (\<lambda>x. total (snd x) = k) out)
               = map fst (filter (\<lambda>(p, a). total (score_participant a) = k) ps)"
    by (simp only: rated_filter_keys[OF rs] scored_filter_keys)
qed

text \<open>Claim C4 on three participants, the first and the last of them tied.\<close>

theorem calculate_scores_sorted_stable_witness:
  "distinct (map fst [(''a'', [(''p_enhancement'', 1 :: int)]), (''b'', [(''p_enhancement'', 2)]),
                      (''c'', [(''p_enhancement'', 1)])])
   \<and> nonneg_counts [(''a'', [(''p_enhancement'', 1)]), (''b'', [(''p_enhancement'', 2)]),
                      (''c'', [(''p_enhancement'', 1)])]
   \<and> calculate_scores [(''a'', [(''p_enhancement'', 1)]), (''b'', [(''p_enhancement'', 2)]),
                      (''c'', [(''p_enhancement'', 1)])]
       = Inr [(''b'', \<lparr>feat_bug_PR = 6, document_PR = 0, feat_bug_issue = 0, document_issue = 0,
                    total = 6, rate = Fin 50\<rparr>),
          (''a'', \<lparr>feat_bug_PR = 3, document_PR = 0, feat_bug_issue = 0, document_issue = 0,
                    total = 3, rate = Fin 25\<rparr>),
          (''c'', \<lparr>feat_bug_PR = 3, document_PR = 0, feat_bug_issue = 0, document_issue = 0,
                    total = 3, rate = Fin 25\<rparr>)]
   \<and> map fst (filter (\<lambda>(p, a). total (score_participant a) = 3)
         [(''a'', [(''p_enhancement'', 1)]), (''b'', [(''p_enhancement'', 2)]),
          (''c'', [(''p_enhancement'', 1)])]) = [''a'', ''c'']
   \<and> map fst (filter (\<lambda>x. total (snd x) = 3)
         [(''b'', \<lparr>feat_bug_PR = 6, document_PR = 0, feat_bug_issue = 0, document_issue = 0,
                    total = 6, rate = Fin 50\<rparr>),
          (''a'', \<lparr>feat_bug_PR = 3, document_PR = 0, feat_bug_issue = 0, document_issue = 0,
                    total = 3, rate = Fin 25\<rparr>),
          (''c'', \<lparr>feat_bug_PR = 3, document_PR = 0, feat_bug_issue = 0, document_issue = 0,
                    total = 3, rate = Fin 25\<rparr>)]) = [''a'', ''c'']"
proof -
  let ?ps = "[(''a'', [(''p_enhancement'', 1 :: int)]), (''b'', [(''p_enhancement'', 2)]),
              (''c'', [(''p_enhancement'', 1)])]"
  let ?out = "[(''b'', \<lparr>feat_bug_PR = 6, document_PR = 0, feat_bug_issue = 0, document_issue = 0,
                    total = 6, rate = Fin 50\<rparr>),
          (''a'', \<lparr>feat_bug_PR = 3, document_PR = 0, feat_bug_issue = 0, document_issue = 0,
                    total = 3, rate = Fin 25\<rparr>),
          (''c'', \<lparr>feat_bug_PR = 3, document_PR = 0, feat_bug_issue = 0, document_issue = 0,
                    total = 3, rate = Fin 25\<rparr>)]"
  have d: "distinct (map fst ?ps)" by simp
  have n: "nonneg_counts ?ps" by (simp add: nonneg_counts_def)
  have c: "calculate_scores ?ps = Inr ?out" by (rule tied_participants)
  have i: "map fst (filter (\<lambda>(p, a). total (score_participant a) = 3) ?ps) = [''a'', ''c'']"
    by (simp add: score_one_feature score_two_features)
  note th = calculate_scores_sorted_stable[OF d, THEN conjunct2, rule_format, OF c]
  have "map fst (filter (\<lambda>x. total (snd x) = 3) ?out)
          = map fst (filter (\<lambda>(p, a). total (score_participant a) = 3) ?ps)"
    using th by (elim conjE allE)
  then have f: "map fst (filter (\<lambda>x. total (snd x) = 3) ?out) = [''a'', ''c'']"
    by (simp only: i)
  from d n c i f show ?thesis by (intro conjI)
qed

text \<open>
  Claim C7 says the rates add up to 100 within a tolerance of 0.1 whenever the sum of the
  totals is positive.  Each rate is rounded to one decimal on its own: six participants
  with the same total have the rate 16.7 each, and the six rates add up to 100.2.
\<close>

theorem rates_sum_counterexample:
  "calculate_scores [(''a'', [(''p_enhancement'', 1)]), (''b'', [(''p_enhancement'', 1)]),
                     (''c'', [(''p_enhancement'', 1)]), (''d'', [(''p_enhancement'', 1)]),
                     (''e'', [(''p_enhancement'', 1)]), (''f'', [(''p_enhancement'', 1)])]
   = Inr [(''a'', \<lparr>feat_bug_PR = 3, document_PR = 0, feat_bug_issue = 0, document_issue = 0,
            total = 3, rate = Fin (4700632111067955 / 281474976710656)\<rparr>),
          (''b'', \<lparr>feat_bug_PR = 3, document_PR = 0, feat_bug_issue = 0, document_issue = 0,
            total = 3, rate = Fin (4700632111067955 / 281474976710656)\<rparr>),
          (''c'', \<lparr>feat_bug_PR = 3, document_PR = 0, feat_bug_issue = 0, document_issue = 0,
            total = 3, rate = Fin (4700632111067955 / 281474976710656)\<rparr>),
          (''d'', \<lparr>feat_bug_PR = 3, document_PR = 0, feat_bug_issue = 0, document_issue = 0,
            total = 3, rate = Fin (4700632111067955 / 281474976710656)\<rparr>),
          (''e'', \<lparr>feat_bug_PR = 3, document_PR = 0, feat_bug_issue = 0, document_issue = 0,
            total = 3, rate = Fin (4700632111067955 / 281474976710656)\<rparr>),
          (''f'', \<lparr>feat_bug_PR = 3, document_PR = 0, feat_bug_issue = 0, document_issue = 0,
            total = 3, rate = Fin (4700632111067955 / 281474976710656)\<rparr>)]
   \<and> \<not> \<bar>sum_list [4700632111067955 / 281474976710656, 4700632111067955 / 281474976710656, 4700632111067955 / 281474976710656,
                   4700632111067955 / 281474976710656, 4700632111067955 / 281474976710656, 4700632111067955 / 281474976710656 :: rat] - 100\<bar> \<le> 1 / 10"
  using six_participants by simp

text \<open>
  Claim C7, amended.  When no count is negative and the sum of the totals is positive,
  every rate is a finite float and the rates add up to 100 within \<open>0.05 + 2\<^sup>-\<^sup>4\<^sup>5\<close> for each
  participant, that is within \<open>n * (0.05 + 2\<^sup>-\<^sup>4\<^sup>5)\<close> for \<open>n\<close> participants.  When the sum of
  the totals is 0 (or negative), every rate is 0.
\<close>

theorem rates_sum_within_rounding:
  assumes "distinct (map fst ps)"
  shows "(nonneg_counts ps \<and> 0 < sum_of_totals ps \<longrightarrow>
            (\<exists>out rs. calculate_scores ps = Inr out \<and> map (\<lambda>x. rate (snd x)) out = map Fin rs
                \<and> \<bar>sum_list rs - 100\<bar> \<le> of_nat (length ps) * (1 / 20 + 1 / 2 ^ 45)))
       \<and> (sum_of_totals ps \<le> 0 \<longrightarrow>
            (\<exists>out. calculate_scores ps = Inr out \<and> map (\<lambda>x. rate (snd x)) out = map (\<lambda>x. Fin 0) ps))"
proof (intro conjI impI)
  assume h: "nonneg_counts ps \<and> 0 < sum_of_totals ps"
  then have nn: "nonneg_counts ps" and pos: "0 < sum_of_totals ps" by simp_all
  from calculate_scores_returns[OF assms nn] obtain out where out: "calculate_scores ps = Inr out" ..
  define v where "v = (\<lambda>x :: string \<times> score. case rate (snd x) of Fin r \<Rightarrow> r | _ \<Rightarrow> 0)"
  define g where "g = (\<lambda>x :: string \<times> score. 100 * of_int (total (snd x)) / (of_int (sum_of_totals ps) :: rat))"
  have each: "rate (snd x) = Fin (v x) \<and> \<bar>v x - g x\<bar> \<le> 1 / 20 + 1 / 2 ^ 45" if "x \<in> set out" for x
    using calculate_scores_rate_bound[OF assms nn pos out that] by (auto simp: v_def g_def)
  have rates: "map (\<lambda>x. rate (snd x)) out = map Fin (map v out)"
    using each by (simp add: comp_def)
  have "sum_list (map g out) = 100 * of_int (sum_list (map (\<lambda>x. total (snd x)) out)) / of_int (sum_of_totals ps)"
    unfolding g_def by (rule sum_list_share)
  also have "\<dots> = 100" using pos by (simp add: calculate_scores_sum[OF assms out])
  finally have g100: "sum_list (map g out) = 100" .
  have "\<bar>sum_list (map v out) - sum_list (map g out)\<bar> \<le> of_nat (length out) * (1 / 20 + 1 / 2 ^ 45)"
    using each by (intro sum_list_abs_bound) blast
  then have "\<bar>sum_list (map v out) - 100\<bar> \<le> of_nat (length ps) * (1 / 20 + 1 / 2 ^ 45)"
    by (simp only: g100 calculate_scores_keys(3)[OF assms out])
  with out rates
  show "\<exists>out rs. calculate_scores ps = Inr out \<and> map (\<lambda>x. rate (snd x)) out = map Fin rs
          \<and> \<bar>sum_list rs - 100\<bar> \<le> of_nat (length ps) * (1 / 20 + 1 / 2 ^ 45)"
    by blast
next
  assume z: "sum_of_totals ps \<le> 0"
  from calculate_scores_returns_nonpositive[OF assms z] obtain out where
    out: "calculate_scores ps = Inr out" ..
  have "rate (snd x) = Fin 0" if "x \<in> set out" for x
  proof -
    obtain p sc where x: "x = (p, sc)" by (cases x)
    from calculate_scores_member[OF assms out] that x
    have "participation_rate (total sc) (sum_of_totals ps) = Inr (rate sc)" by blast
    then show ?thesis using participation_rate_nonpositive[OF z, of "total sc"] by (simp add: x)
  qed
  then have "map (\<lambda>x. rate (snd x)) out = map (\<lambda>x. Fin 0) out" by simp
  also have "\<dots> = map (\<lambda>x. Fin 0) ps"
    using calculate_scores_keys(3)[OF assms out] by (simp add: map_replicate_const)
  finally show "\<exists>out. calculate_scores ps = Inr out
      \<and> map (\<lambda>x. rate (snd x)) out = map (\<lambda>x. Fin 0) ps" using out by blast
qed

text \<open>
  The amended claim C7 on the six participants with the same total, and on a participant
  without any activity.
\<close>

theorem rates_sum_within_rounding_witness:
  "distinct (map fst [(''a'', [(''p_enhancement'', 1 :: int)]), (''b'', [(''p_enhancement'', 1)]),
        (''c'', [(''p_enhancement'', 1)]), (''d'', [(''p_enhancement'', 1)]),
        (''e'', [(''p_enhancement'', 1)]), (''f'', [(''p_enhancement'', 1)])])
   \<and> nonneg_counts [(''a'', [(''p_enhancement'', 1 :: int)]), (''b'', [(''p_enhancement'', 1)]),
        (''c'', [(''p_enhancement'', 1)]), (''d'', [(''p_enhancement'', 1)]),
        (''e'', [(''p_enhancement'', 1)]), (''f'', [(''p_enhancement'', 1)])]
   \<and> 0 < sum_of_totals [(''a'', [(''p_enhancement'', 1 :: int)]), (''b'', [(''p_enhancement'', 1)]),
        (''c'', [(''p_enhancement'', 1)]), (''d'', [(''p_enhancement'', 1)]),
        (''e'', [(''p_enhancement'', 1)]), (''f'', [(''p_enhancement'', 1)])]
   \<and> (\<exists>out rs. calculate_scores [(''a'', [(''p_enhancement'', 1 :: int)]), (''b'', [(''p_enhancement'', 1)]),
        (''c'', [(''p_enhancement'', 1)]), (''d'', [(''p_enhancement'', 1)]),
        (''e'', [(''p_enhancement'', 1)]), (''f'', [(''p_enhancement'', 1)])] = Inr out \<and> map (\<lambda>x. rate (snd x)) out = map Fin rs
          \<and> \<bar>sum_list rs - 100\<bar> \<le> of_nat (length [(''a'', [(''p_enhancement'', 1 :: int)]), (''b'', [(''p_enhancement'', 1)]),
        (''c'', [(''p_enhancement'', 1)]), (''d'', [(''p_enhancement'', 1)]),
        (''e'', [(''p_enhancement'', 1)]), (''f'', [(''p_enhancement'', 1)])]) * (1 / 20 + 1 / 2 ^ 45))
   \<and> distinct (map fst [(''w'', [] :: activities)])
   \<and> sum_of_totals [(''w'', [])] \<le> 0
   \<and> (\<exists>out. calculate_scores [(''w'', [])] = Inr out
          \<and> map (\<lambda>x. rate (snd x)) out = map (\<lambda>x. Fin 0) [(''w'', [] :: activities)])"
proof -
  let ?six = "[(''a'', [(''p_enhancement'', 1 :: int)]), (''b'', [(''p_enhancement'', 1)]),
        (''c'', [(''p_enhancement'', 1)]), (''d'', [(''p_enhancement'', 1)]),
        (''e'', [(''p_enhancement'', 1)]), (''f'', [(''p_enhancement'', 1)])]"
  have d: "distinct (map fst ?six)" by simp
  have n: "nonneg_counts ?six" by (simp add: nonneg_counts_def)
  have s: "0 < sum_of_totals ?six" by (simp add: sum_of_totals_six)
  note 1 = rates_sum_within_rounding[OF d, THEN conjunct1, THEN mp, OF conjI[OF n s]]
  have d0: "distinct (map fst [(''w'', [] :: activities)])" by simp
  have s0: "sum_of_totals [(''w'', [])] \<le> 0" by (simp add: sum_of_totals_idle)
  note 2 = rates_sum_within_rounding[OF d0, THEN conjunct2, THEN mp, OF s0]
  from d n s 1 d0 s0 2 show ?thesis by (intro conjI)
qed

section \<open>The Collector, item by item\<close>

lemma count_labels_keys: "map fst (count_labels prefix names counts) = map fst counts"
proof (induction names arbitrary: counts)
  case Nil
  then show ?case by simp
next
  case (Cons l names)
  show ?case
  proof (cases "map_of counts (prefix @ l)")
    case None
    then show ?thesis using Cons.IH by simp
  next
    case (Some n)
    then have "prefix @ l \<in> set (map fst counts)"
      by (metis map_of_eq_None_iff option.distinct(1) set_map)
    then have "map fst (dict_set counts (prefix @ l) (n + 1)) = map fst counts"
      by (simp add: dict_set_def update_keys)
    then show ?thesis using Cons.IH[of "dict_set counts (prefix @ l) (n + 1)"] Some by simp
  qed
qed

lemma count_labels_lookup:
  "map_of (count_labels prefix names counts) k
     = map_option (\<lambda>n. n + int (length (filter (\<lambda>l. prefix @ l = k) names))) (map_of counts k)"
proof (induction names arbitrary: counts)
  case Nil
  then show ?case by (simp add: option.map_ident)
next
  case (Cons l names)
  show ?case
  proof (cases "map_of counts (prefix @ l)")
    case None
    then show ?thesis using Cons.IH[of counts] by (cases "prefix @ l = k") auto
  next
    case (Some n)
    have "map_of (dict_set counts (prefix @ l) (n + 1)) k
            = (if prefix @ l = k then Some (n + 1) else map_of counts k)"
      by (simp add: dict_set_def update_conv')
    then show ?thesis using Cons.IH[of "dict_set counts (prefix @ l) (n + 1)"] Some
      by (cases "prefix @ l = k") (auto simp: option.map_comp comp_def)
  qed
qed

lemma count_labels_get:
  "map_of counts k \<noteq> None \<Longrightarrow>
   dict_get (count_labels prefix names counts) k 0
     = dict_get counts k 0 + int (length (filter (\<lambda>l. prefix @ l = k) names))"
  by (auto simp: dict_get_def count_labels_lookup)

lemma count_labels_well_formed:
  "well_formed_counts counts \<Longrightarrow> well_formed_counts (count_labels prefix names counts)"
  by (simp add: well_formed_counts_def count_labels_keys)

lemma lower_nonempty: "lower n = [] \<longleftrightarrow> n = []"
  by (simp add: lower_def)

lemma label_names_count:
  assumes "l \<noteq> []"
  shows "length (filter (\<lambda>x. x = l) (label_names it)) = matching_labels it l"
proof -
  have "length (filter (\<lambda>x. x = l) (concat (map (\<lambda>lab. case label_name lab of
                          None \<Rightarrow> []
                        | Some n \<Rightarrow> if n = [] then [] else [lower n]) labs)))
        = length (filter (\<lambda>lab. case label_name lab of Some n \<Rightarrow> lower n = l | None \<Rightarrow> False) labs)"
    for labs
    using assms by (induction labs) (auto simp: lower_nonempty split: option.splits)
  then show ?thesis by (simp add: label_names_def matching_labels_def)
qed

lemma new_counts_well_formed: "well_formed_counts new_counts"
  by (simp add: well_formed_counts_def new_counts_def bucket_keys_def)

lemma new_counts_zero: "k \<in> set bucket_keys \<Longrightarrow> dict_get new_counts k 0 = 0"
  by (auto simp: new_counts_def bucket_keys_def dict_get_def)

lemma well_formed_lookup:
  "well_formed ps \<Longrightarrow> map_of ps p = Some c \<Longrightarrow> well_formed_counts c"
  by (auto simp: well_formed_def list_all_iff dest!: map_of_SomeD)

lemma well_formed_counts_of: "well_formed ps \<Longrightarrow> well_formed_counts (counts_of ps a)"
  by (auto simp: counts_of_def new_counts_well_formed well_formed_lookup split: option.splits)

lemma well_formed_dict_set:
  assumes "well_formed ps" and "well_formed_counts c"
  shows "well_formed (dict_set ps a c)"
proof -
  have "distinct (map fst (dict_set ps a c))"
    using assms(1) by (simp add: well_formed_def dict_set_def distinct_update)
  moreover have "well_formed_counts c'" if "(p, c') \<in> set (dict_set ps a c)" for p c'
  proof -
    have "map_of (dict_set ps a c) p = Some c'"
      using that \<open>distinct (map fst (dict_set ps a c))\<close> by simp
    then have "(if p = a then Some c else map_of ps p) = Some c'"
      by (simp add: dict_set_def update_conv')
    then show ?thesis using assms well_formed_lookup[OF assms(1)] by (auto split: if_splits)
  qed
  ultimately show ?thesis by (auto simp: well_formed_def list_all_iff)
qed

lemma register_author_lookup:
  "map_of (register_author a ps) q = (if q = a then Some (counts_of ps a) else map_of ps q)"
  by (auto simp: register_author_def dict_has_def dict_set_def update_conv' counts_of_def)

lemma register_author_keys:
  "map fst (register_author a ps)
     = (if a \<in> set (map fst ps) then map fst ps else map fst ps @ [a])"
  by (auto simp: register_author_def dict_has_def dict_set_def update_keys map_of_eq_None_iff)

lemma register_author_well_formed: "well_formed ps \<Longrightarrow> well_formed (register_author a ps)"
  by (simp add: register_author_def well_formed_dict_set new_counts_well_formed)

lemma dict_set_existing_keys:
  "map_of ps a = Some c \<Longrightarrow> map fst (dict_set ps a c') = map fst ps"
proof -
  assume "map_of ps a = Some c"
  then have "a \<in> set (map fst ps)" by (metis map_of_eq_None_iff option.distinct(1) set_map)
  then show ?thesis by (simp add: dict_set_def update_keys)
qed

lemma bucket_keys_cases:
  "k \<in> set bucket_keys \<Longrightarrow>
   k = ''p_enhancement'' \<or> k = ''p_bug'' \<or> k = ''p_documentation''
   \<or> k = ''i_enhancement'' \<or> k = ''i_bug'' \<or> k = ''i_documentation''"
  by (simp add: bucket_keys_def)

lemma pull_request_label_count:
  assumes "k \<in> set bucket_keys"
  shows "int (length (filter (\<lambda>l. ''p_'' @ l = k) (label_names it)))
           = (if k \<in> {''p_enhancement'', ''p_bug'', ''p_documentation''}
              then int (matching_labels it (drop 2 k)) else 0)"
  using bucket_keys_cases[OF assms]
  apply (elim disjE)
       apply hypsubst
       apply (simp add: label_names_count)
      apply hypsubst
      apply (simp add: label_names_count)
     apply hypsubst
     apply (simp add: label_names_count)
    apply hypsubst
    apply (simp add: label_names_count)
   apply hypsubst
   apply (simp add: label_names_count)
  apply hypsubst
  apply (simp add: label_names_count)
  done

lemma issue_label_count:
  assumes "k \<in> set bucket_keys"
  shows "int (length (filter (\<lambda>l. ''i_'' @ l = k) (label_names it)))
           = (if k \<in> {''i_enhancement'', ''i_bug'', ''i_documentation''}
              then int (matching_labels it (drop 2 k)) else 0)"
  using bucket_keys_cases[OF assms]
  apply (elim disjE)
       apply hypsubst
       apply (simp add: label_names_count)
      apply hypsubst
      apply (simp add: label_names_count)
     apply hypsubst
     apply (simp add: label_names_count)
    apply hypsubst
    apply (simp add: label_names_count)
   apply hypsubst
   apply (simp add: label_names_count)
  apply hypsubst
  apply (simp add: label_names_count)
  done

lemma credit_merged:
  assumes "k \<in> set bucket_keys" and "merged it"
  shows "credit it k = int (length (filter (\<lambda>l. ''p_'' @ l = k) (label_names it)))"
proof -
  have "\<not> countable_issue it"
    using assms(2) by (auto simp: merged_def countable_issue_def split: option.splits)
  then have "credit it k = (if k \<in> {''p_enhancement'', ''p_bug'', ''p_documentation''}
              then int (matching_labels it (drop 2 k)) else 0)"
    using assms(2) by (simp add: credit_def)
  also have "\<dots> = int (length (filter (\<lambda>l. ''p_'' @ l = k) (label_names it)))"
    by (rule pull_request_label_count[OF assms(1), symmetric])
  finally show ?thesis .
qed

lemma credit_countable_issue:
  assumes "k \<in> set bucket_keys" and "countable_issue it"
  shows "credit it k = int (length (filter (\<lambda>l. ''i_'' @ l = k) (label_names it)))"
proof -
  have "\<not> merged it"
    using assms(2) by (auto simp: merged_def countable_issue_def split: option.splits)
  then have "credit it k = (if k \<in> {''i_enhancement'', ''i_bug'', ''i_documentation''}
              then int (matching_labels it (drop 2 k)) else 0)"
    using assms(2) by (simp add: credit_def)
  also have "\<dots> = int (length (filter (\<lambda>l. ''i_'' @ l = k) (label_names it)))"
    by (rule issue_label_count[OF assms(1), symmetric])
  finally show ?thesis .
qed

lemma credit_none: "\<not> merged it \<Longrightarrow> \<not> countable_issue it \<Longrightarrow> credit it k = 0"
  by (simp add: credit_def)

lemma credit_nonneg: "0 \<le> credit it k"
  by (simp add: credit_def)

lemma collect_item_cases:
  "collect_item it ps =
     (if merged it
      then Inr (dict_set (register_author (author_of it) ps) (author_of it)
                  (count_labels ''p_'' (label_names it) (counts_of ps (author_of it))))
      else if countable_issue it
      then Inr (dict_set (register_author (author_of it) ps) (author_of it)
                  (count_labels ''i_'' (label_names it) (counts_of ps (author_of it))))
      else Inr (register_author (author_of it) ps))"
proof (cases "pull_request it")
  case None
  have m: "\<not> merged it" by (simp add: merged_def None)
  have c: "countable_issue it
             \<longleftrightarrow> state_reason it \<in> {Some ''completed'', Some ''reopened'', None}"
    by (auto simp: countable_issue_def None)
  show ?thesis
    unfolding collect_item_def Let_def
    by (simp only: None option.case m c register_author_lookup if_True if_False refl)
next
  case (Some merged_at)
  have c: "\<not> countable_issue it" by (simp add: countable_issue_def Some)
  have m: "merged it \<longleftrightarrow> merged_at \<noteq> None \<and> merged_at \<noteq> Some []"
    by (cases merged_at) (simp_all add: merged_def Some)
  show ?thesis
    unfolding collect_item_def Let_def
    by (simp only: Some option.case m c register_author_lookup if_True if_False refl)
qed

lemma well_formed_counts_has:
  "well_formed_counts c \<Longrightarrow> k \<in> set bucket_keys \<Longrightarrow> map_of c k \<noteq> None"
  by (simp add: well_formed_counts_def map_of_eq_None_iff)

lemma collect_item_form:
  assumes "well_formed ps"
  shows "\<exists>c'. collect_item it ps
                 = Inr (dict_set (register_author (author_of it) ps) (author_of it) c')
              \<and> well_formed_counts c'
              \<and> (\<forall>k \<in> set bucket_keys.
                    dict_get c' k 0 = dict_get (counts_of ps (author_of it)) k 0 + credit it k)"
proof -
  let ?A = "author_of it"
  let ?old = "counts_of ps ?A"
  have wfc: "well_formed_counts ?old" by (rule well_formed_counts_of[OF assms])
  consider (pr) "merged it" | (issue) "\<not> merged it" "countable_issue it"
    | (none) "\<not> merged it" "\<not> countable_issue it" by blast
  then show ?thesis
  proof cases
    case pr
    let ?new = "count_labels ''p_'' (label_names it) ?old"
    have "collect_item it ps = Inr (dict_set (register_author ?A ps) ?A ?new)"
      using pr by (simp add: collect_item_cases)
    moreover have "well_formed_counts ?new" by (rule count_labels_well_formed[OF wfc])
    moreover have "dict_get ?new k 0 = dict_get ?old k 0 + credit it k"
      if "k \<in> set bucket_keys" for k
      using count_labels_get[OF well_formed_counts_has[OF wfc that], of "''p_''" "label_names it"]
        credit_merged[OF that pr] by linarith
    then have "\<forall>k \<in> set bucket_keys. dict_get ?new k 0 = dict_get ?old k 0 + credit it k"
      by blast
    ultimately show ?thesis by blast
  next
    case issue
    let ?new = "count_labels ''i_'' (label_names it) ?old"
    have "collect_item it ps = Inr (dict_set (register_author ?A ps) ?A ?new)"
      using issue by (simp add: collect_item_cases)
    moreover have "well_formed_counts ?new" by (rule count_labels_well_formed[OF wfc])
    moreover have "dict_get ?new k 0 = dict_get ?old k 0 + credit it k"
      if "k \<in> set bucket_keys" for k
      using count_labels_get[OF well_formed_counts_has[OF wfc that], of "''i_''" "label_names it"]
        credit_countable_issue[OF that issue(2)] by linarith
    then have "\<forall>k \<in> set bucket_keys. dict_get ?new k 0 = dict_get ?old k 0 + credit it k"
      by blast
    ultimately show ?thesis by blast
  next
    case none
    have "map_of (register_author ?A ps) ?A = Some ?old" by (simp add: register_author_lookup)
    then have "dict_set (register_author ?A ps) ?A ?old = register_author ?A ps"
      by (simp add: dict_set_def update_triv)
    then have "collect_item it ps = Inr (dict_set (register_author ?A ps) ?A ?old)"
      using none by (simp add: collect_item_cases)
    moreover have "\<forall>k \<in> set bucket_keys. dict_get ?old k 0 = dict_get ?old k 0 + credit it k"
      using none by (simp add: credit_none)
    ultimately show ?thesis using wfc by blast
  qed
qed

lemma collect_item_result:
  assumes "well_formed ps"
  shows "\<exists>ps'. collect_item it ps = Inr ps' \<and> well_formed ps'
           \<and> map fst ps' = (if author_of it \<in> set (map fst ps) then map fst ps
                            else map fst ps @ [author_of it])
           \<and> (\<forall>a. a \<noteq> author_of it \<longrightarrow> map_of ps' a = map_of ps a)
           \<and> (\<forall>k \<in> set bucket_keys.
                 dict_get (counts_of ps' (author_of it)) k 0
                   = dict_get (counts_of ps (author_of it)) k 0 + credit it k)"
proof -
  let ?A = "author_of it"
  let ?ps1 = "register_author ?A ps"
  from collect_item_form[OF assms, of it] obtain c' where
    c: "collect_item it ps = Inr (dict_set ?ps1 ?A c')" and wfc: "well_formed_counts c'" and
    g: "\<forall>k \<in> set bucket_keys. dict_get c' k 0 = dict_get (counts_of ps ?A) k 0 + credit it k"
    by blast
  have wf: "well_formed (dict_set ?ps1 ?A c')"
    by (rule well_formed_dict_set[OF register_author_well_formed[OF assms] wfc])
  have "map_of ?ps1 ?A = Some (counts_of ps ?A)" by (simp add: register_author_lookup)
  from dict_set_existing_keys[OF this]
  have keys: "map fst (dict_set ?ps1 ?A c') = (if ?A \<in> set (map fst ps) then map fst ps
                            else map fst ps @ [?A])"
    by (simp only: register_author_keys)
  have look: "map_of (dict_set ?ps1 ?A c') a = (if a = ?A then Some c' else map_of ps a)" for a
    by (simp add: dict_set_def update_conv' register_author_lookup)
  have "counts_of (dict_set ?ps1 ?A c') ?A = c'" by (simp add: counts_of_def look)
  with c wf keys look g show ?thesis by auto
qed

lemma counts_of_cong: "map_of ps' a = map_of ps a \<Longrightarrow> counts_of ps' a = counts_of ps a"
  by (simp add: counts_of_def)

lemma collect_items_result:
  assumes "well_formed ps"
  shows "\<exists>ps'. collect_items its ps = Inr ps' \<and> well_formed ps'
           \<and> set (map fst ps') = set (map fst ps) \<union> author_of ` set its
           \<and> (\<forall>a. \<forall>k \<in> set bucket_keys.
                 dict_get (counts_of ps' a) k 0
                   = dict_get (counts_of ps a) k 0
                     + sum_list (map (\<lambda>it. credit it k) (filter (\<lambda>it. author_of it = a) its)))"
  using assms
proof (induction its arbitrary: ps)
  case Nil
  then show ?case by simp
next
  case (Cons it its)
  from collect_item_result[OF Cons.prems, of it] obtain ps1 where
    c1: "collect_item it ps = Inr ps1" and wf1: "well_formed ps1" and
    k1: "map fst ps1 = (if author_of it \<in> set (map fst ps) then map fst ps
                            else map fst ps @ [author_of it])" and
    o1: "\<And>a. a \<noteq> author_of it \<Longrightarrow> map_of ps1 a = map_of ps a" and
    g1: "\<And>k. k \<in> set bucket_keys \<Longrightarrow>
          dict_get (counts_of ps1 (author_of it)) k 0
            = dict_get (counts_of ps (author_of it)) k 0 + credit it k"
    by blast
  from Cons.IH[OF wf1] obtain ps' where
    ih: "collect_items its ps1 = Inr ps' \<and> well_formed ps'
           \<and> set (map fst ps') = set (map fst ps1) \<union> author_of ` set its
           \<and> (\<forall>a. \<forall>k \<in> set bucket_keys.
                 dict_get (counts_of ps' a) k 0
                   = dict_get (counts_of ps1 a) k 0
                     + sum_list (map (\<lambda>it. credit it k) (filter (\<lambda>it. author_of it = a) its)))"
    ..
  from ih have c: "collect_items its ps1 = Inr ps'" and wf: "well_formed ps'" and
    k: "set (map fst ps') = set (map fst ps1) \<union> author_of ` set its"
    by simp_all
  from ih have g: "dict_get (counts_of ps' a) k 0
            = dict_get (counts_of ps1 a) k 0
              + sum_list (map (\<lambda>it. credit it k) (filter (\<lambda>it. author_of it = a) its))"
    if "k \<in> set bucket_keys" for a k
    using that by simp
  have step: "dict_get (counts_of ps1 a) k 0
                = dict_get (counts_of ps a) k 0 + (if author_of it = a then credit it k else 0)"
    if "k \<in> set bucket_keys" for a k
  proof (cases "author_of it = a")
    case True
    then show ?thesis using g1[OF that] by simp
  next
    case False
    then have "counts_of ps1 a = counts_of ps a" by (intro counts_of_cong o1) simp
    then show ?thesis using False by simp
  qed
  have "collect_items (it # its) ps = Inr ps'" using c1 c by simp
  moreover have "set (map fst ps') = set (map fst ps) \<union> author_of ` set (it # its)"
    using k k1 by (auto split: if_splits)
  moreover have "\<forall>a. \<forall>k \<in> set bucket_keys.
                 dict_get (counts_of ps' a) k 0
                   = dict_get (counts_of ps a) k 0
                     + sum_list (map (\<lambda>it. credit it k) (filter (\<lambda>it. author_of it = a) (it # its)))"
    using g step by simp
  ultimately show ?case using wf by blast
qed

lemma collect_items_returns: "\<exists>ps'. collect_items its ps = Inr ps'"
proof (induction its arbitrary: ps)
  case Nil
  then show ?case by simp
next
  case (Cons it its)
  have "\<exists>ps1. collect_item it ps = Inr ps1" by (simp add: collect_item_cases)
  then obtain ps1 where "collect_item it ps = Inr ps1" ..
  then show ?case using Cons.IH[of ps1] by simp
qed

lemma collect_items_append:
  "collect_items (xs @ ys) ps
     = (case collect_items xs ps of Inl e \<Rightarrow> Inl e | Inr ps' \<Rightarrow> collect_items ys ps')"
  by (induction xs arbitrary: ps) (simp_all split: sum.splits)

section \<open>The Collector, page by page\<close>

lemma collect_pages_last:
  assumes "\<not> continues (f n)"
    and "collect_items (if status_code (f n) = 200 then json (f n) else []) (participants st) = Inr ps"
  shows "collect_pages f n st
           = Some (Inr (st\<lparr>participants := ps,
                           data_collected := data_collected st \<and> status_code (f n) = 200\<rparr>))"
proof (cases "status_code (f n) = 200")
  case False
  then have "ps = participants st" using assms(2) by simp
  then show ?thesis using False
    by (subst collect_pages.simps) (simp add: Let_def)
next
  case ok: True
  show ?thesis
  proof (cases "json (f n) = []")
    case True
    then have "ps = participants st" using assms(2) ok by simp
    then show ?thesis using ok True
      by (subst collect_pages.simps) (simp add: Let_def)
  next
    case False
    then have "\<not> has_next (link (f n))" using assms(1) ok by (simp add: continues_def)
    moreover have "collect_items (json (f n)) (participants st) = Inr ps" using assms(2) ok by simp
    ultimately show ?thesis using ok False
      by (subst collect_pages.simps) (simp add: Let_def)
  qed
qed

lemma collect_pages_ends:
  assumes "list_all (\<lambda>p. continues (f p)) [page..<n]" and "page \<le> n" and "\<not> continues (f n)"
    and "collect_items (concat (map (\<lambda>p. json (f p)) [page..<n])
                         @ (if status_code (f n) = 200 then json (f n) else []))
           (participants st) = Inr ps"
  shows "collect_pages f page st
           = Some (Inr (st\<lparr>participants := ps,
                           data_collected := data_collected st \<and> status_code (f n) = 200\<rparr>))"
  using assms
proof (induction "n - page" arbitrary: page st)
  case 0
  then have "page = n" by simp
  with "0.prems" show ?case by (simp add: collect_pages_last)
next
  case (Suc d)
  then have lt: "page < n" by simp
  then have upt: "[page..<n] = page # [Suc page..<n]" by (simp add: upt_conv_Cons)
  have cont: "continues (f page)" and rest: "list_all (\<lambda>p. continues (f p)) [Suc page..<n]"
    using Suc.prems(1) by (simp_all add: upt)
  from collect_items_returns obtain ps1 where
    ps1: "collect_items (json (f page)) (participants st) = Inr ps1" by blast
  have items: "collect_items (concat (map (\<lambda>p. json (f p)) [Suc page..<n])
                         @ (if status_code (f n) = 200 then json (f n) else []))
           (participants (st\<lparr>participants := ps1\<rparr>)) = Inr ps"
    using Suc.prems(4) ps1 by (simp add: upt collect_items_append)
  have d: "d = n - Suc page" using Suc.hyps(2) by simp
  from Suc.hyps(1)[OF d rest _ Suc.prems(3) items] lt
  have "collect_pages f (Suc page) (st\<lparr>participants := ps1\<rparr>)
           = Some (Inr (st\<lparr>participants := ps,
                           data_collected := data_collected st \<and> status_code (f n) = 200\<rparr>))"
    by simp
  then show ?case using cont ps1
    by (subst collect_pages.simps) (simp add: Let_def continues_def)
qed

lemma collect_PRs_and_issues_ends:
  assumes "ends_at f n"
  shows "\<exists>ps. collect_items (fetched_items f n) [] = Inr ps \<and> well_formed ps
           \<and> collect_PRs_and_issues f init_analyzer
               = Some (Inr \<lparr>participants = ps, data_collected = (status_code (f n) = 200)\<rparr>)"
proof -
  have wf0: "well_formed []" by (simp add: well_formed_def)
  from collect_items_result[OF wf0, of "fetched_items f n"] obtain ps where
    ps: "collect_items (fetched_items f n) [] = Inr ps" and wf: "well_formed ps" by blast
  have "collect_pages f 1 init_analyzer
          = Some (Inr (init_analyzer\<lparr>participants := ps,
                 data_collected := data_collected init_analyzer \<and> status_code (f n) = 200\<rparr>))"
    using assms ps
    by (intro collect_pages_ends) (simp_all add: ends_at_def fetched_items_def init_analyzer_def)
  then show ?thesis using ps wf
    by (simp add: collect_PRs_and_issues_def init_analyzer_def)
qed

lemma ends_one_page: "ends_at one_page 1"
  by (simp add: ends_at_def continues_def one_page_def has_next_def)

lemma ends_rate_limited: "ends_at rate_limited 2"
  by code_simp

lemma credit_merged_pr:
  "credit merged_pr ''p_bug'' = 1" "credit merged_pr ''p_documentation'' = 1"
  "credit merged_pr ''p_enhancement'' = 0" "credit merged_pr ''i_bug'' = 0"
  by code_simp+

lemma no_credit_examples:
  "\<forall>k \<in> set bucket_keys. credit unmerged_pr k = 0"
  "\<forall>k \<in> set bucket_keys. credit unplanned_issue k = 0"
  by code_simp+

lemma collect_merged_pr:
  "collect_item merged_pr []
     = Inr [(''bob'', [(''p_enhancement'', 0), (''p_bug'', 1), (''p_documentation'', 1),
                      (''i_enhancement'', 0), (''i_bug'', 0), (''i_documentation'', 0)])]"
  by code_simp

lemma participation_rate_zero: "participation_rate 0 s = Inr (Fin 0)"
  by (simp add: participation_rate_def int_truediv_def round_binary64_def too_large_def
      round_half_even_def)

lemma score_participant_zero:
  assumes "\<forall>k \<in> set bucket_keys. dict_get c k 0 = 0"
  shows "score_participant c
           = \<lparr>feat_bug_PR = 0, document_PR = 0, feat_bug_issue = 0, document_issue = 0, total = 0\<rparr>"
proof -
  have "dict_get c ''p_enhancement'' 0 = 0" "dict_get c ''p_bug'' 0 = 0"
    "dict_get c ''p_documentation'' 0 = 0" "dict_get c ''i_enhancement'' 0 = 0"
    "dict_get c ''i_bug'' 0 = 0" "dict_get c ''i_documentation'' 0 = 0"
    using assms by (simp_all add: bucket_keys_def)
  then show ?thesis
    by (simp add: score_participant_intermediate p_fb_of_def i_fb_of_def p_valid_of_def
        i_valid_of_def)
qed

lemma sum_list_credit_nonneg: "0 \<le> sum_list (map (\<lambda>it. credit it k) its)"
  by (induction its) (simp_all add: credit_nonneg)

lemma collected_counts:
  assumes "collect_items its [] = Inr ps" and "k \<in> set bucket_keys"
  shows "dict_get (counts_of ps a) k 0
           = sum_list (map (\<lambda>it. credit it k) (filter (\<lambda>it. author_of it = a) its))"
    and "well_formed ps" and "set (map fst ps) = author_of ` set its"
proof -
  have wf0: "well_formed []" by (simp add: well_formed_def)
  from collect_items_result[OF wf0, of its] assms(1) have
    r: "well_formed ps \<and> set (map fst ps) = set (map fst []) \<union> author_of ` set its
        \<and> (\<forall>a. \<forall>k \<in> set bucket_keys.
                 dict_get (counts_of ps a) k 0
                   = dict_get (counts_of [] a) k 0
                     + sum_list (map (\<lambda>it. credit it k) (filter (\<lambda>it. author_of it = a) its)))"
    by auto
  show "well_formed ps" using r by simp
  show "set (map fst ps) = author_of ` set its" using r by simp
  have "dict_get (counts_of [] a) k 0 = 0"
    using assms(2) by (simp add: counts_of_def new_counts_zero)
  then show "dict_get (counts_of ps a) k 0
           = sum_list (map (\<lambda>it. credit it k) (filter (\<lambda>it. author_of it = a) its))"
    using r assms(2) by simp
qed

lemma collected_nonneg:
  assumes "collect_items its [] = Inr ps"
  shows "nonneg_counts ps"
proof -
  have wf: "well_formed ps" by (rule collected_counts(2)[OF assms, of "''p_bug''"])
      (simp add: bucket_keys_def)
  have "0 \<le> v" if "(a, c) \<in> set ps" and "(k, v) \<in> set c" for a c k v
  proof -
    have "map_of ps a = Some c" using wf that(1) by (simp add: well_formed_def)
    then have c: "counts_of ps a = c" by (simp add: counts_of_def)
    have wfc: "well_formed_counts c" by (rule well_formed_lookup[OF wf \<open>map_of ps a = Some c\<close>])
    then have k: "k \<in> set bucket_keys" using that(2)
      by (auto simp: well_formed_counts_def) (metis fst_conv image_eqI)
    have "map_of c k = Some v" using wfc that(2) by (simp add: well_formed_counts_def)
    then have "v = dict_get c k 0" by (simp add: dict_get_def)
    also have "\<dots> = sum_list (map (\<lambda>it. credit it k) (filter (\<lambda>it. author_of it = a) its))"
      using collected_counts(1)[OF assms k, of a] c by simp
    finally show ?thesis using sum_list_credit_nonneg by simp
  qed
  then show ?thesis by (auto simp: nonneg_counts_def list_all_iff)
qed

lemma sum_list_all_zero:
  "\<forall>x \<in> set xs. f x = 0 \<Longrightarrow> sum_list (map f xs) = (0 :: int)"
  by (induction xs) simp_all

lemma ends_at_cong:
  assumes "\<forall>p. p \<le> n \<longrightarrow> g p = f p"
  shows "ends_at g n = ends_at f n" and "fetched_items g n = fetched_items f n"
proof -
  have gn: "g n = f n" using assms by simp
  have "list_all (\<lambda>p. continues (g p)) [1..<n] = list_all (\<lambda>p. continues (f p)) [1..<n]"
    using assms by (auto simp: list_all_iff)
  then show "ends_at g n = ends_at f n" unfolding ends_at_def by (simp only: gn)
  have "map (\<lambda>p. json (g p)) [1..<n] = map (\<lambda>p. json (f p)) [1..<n]"
    using assms by (intro map_cong refl) simp
  then show "fetched_items g n = fetched_items f n" unfolding fetched_items_def by (simp only: gn)
qed

lemma collect_PRs_and_issues_cong:
  assumes "ends_at f n" and "\<forall>p. p \<le> n \<longrightarrow> g p = f p"
  shows "collect_PRs_and_issues g init_analyzer = collect_PRs_and_issues f init_analyzer"
proof -
  have eg: "ends_at g n" using assms ends_at_cong(1)[OF assms(2)] by simp
  have gn: "g n = f n" using assms(2) by simp
  from collect_PRs_and_issues_ends[OF assms(1)] collect_PRs_and_issues_ends[OF eg]
  show ?thesis by (auto simp: ends_at_cong(2)[OF assms(2)] gn)
qed

section \<open>The claims about the Collector\<close>

text \<open>
  Claim C5.  When the page that ends the collection answers 403 or any other status than
  200, \<open>collect_PRs_and_issues\<close> returns at once with \<open>_data_collected\<close> set to \<open>False\<close>:
  the participants are those of the pages before it, and no later page is requested
  (a forge that answers the same up to that page gives the same result).  The caller,
  as the specification describes it, then reports ``data incomplete'' and does not run
  \<open>calculate_scores\<close>.
\<close>

theorem collection_failure_is_signalled:
  assumes "ends_at f n" and "status_code (f n) \<noteq> 200"
  shows "\<exists>ps. collect_items (concat (map (\<lambda>p. json (f p)) [1..<n])) [] = Inr ps
            \<and> collect_PRs_and_issues f init_analyzer
                = Some (Inr \<lparr>participants = ps, data_collected = False\<rparr>)
            \<and> (\<forall>g. (\<forall>p. p \<le> n \<longrightarrow> g p = f p) \<longrightarrow>
                  collect_PRs_and_issues g init_analyzer
                    = Some (Inr \<lparr>participants = ps, data_collected = False\<rparr>))
            \<and> run f = Some Data_incomplete"
proof -
  from collect_PRs_and_issues_ends[OF assms(1)] obtain ps where
    ps: "collect_items (fetched_items f n) [] = Inr ps" and
    c: "collect_PRs_and_issues f init_analyzer
          = Some (Inr \<lparr>participants = ps, data_collected = (status_code (f n) = 200)\<rparr>)"
    by blast
  have 1: "collect_items (concat (map (\<lambda>p. json (f p)) [1..<n])) [] = Inr ps"
    using ps assms(2) by (simp add: fetched_items_def)
  have 2: "collect_PRs_and_issues f init_analyzer
             = Some (Inr \<lparr>participants = ps, data_collected = False\<rparr>)"
    using c assms(2) by simp
  have 3: "collect_PRs_and_issues g init_analyzer
             = Some (Inr \<lparr>participants = ps, data_collected = False\<rparr>)"
    if "\<forall>p. p \<le> n \<longrightarrow> g p = f p" for g
    using collect_PRs_and_issues_cong[OF assms(1) that] 2 by simp
  have 4: "run f = Some Data_incomplete" by (simp add: run_def 2)
  from 1 2 3 4 show ?thesis by blast
qed

text \<open>Claim C5 on a forge whose second page answers 403.\<close>

theorem collection_failure_is_signalled_witness:
  "ends_at rate_limited 2 \<and> status_code (rate_limited 2) \<noteq> 200
   \<and> (\<exists>ps. collect_items (concat (map (\<lambda>p. json (rate_limited p)) [1..<2])) [] = Inr ps
            \<and> collect_PRs_and_issues rate_limited init_analyzer
                = Some (Inr \<lparr>participants = ps, data_collected = False\<rparr>)
            \<and> (\<forall>g. (\<forall>p. p \<le> 2 \<longrightarrow> g p = rate_limited p) \<longrightarrow>
                  collect_PRs_and_issues g init_analyzer
                    = Some (Inr \<lparr>participants = ps, data_collected = False\<rparr>))
            \<and> run rate_limited = Some Data_incomplete)"
proof -
  have e: "ends_at rate_limited 2" by (rule ends_rate_limited)
  have s: "status_code (rate_limited 2) \<noteq> 200" by (simp add: rate_limited_def)
  from e s collection_failure_is_signalled[OF e s] show ?thesis by (intro conjI)
qed

text \<open>
  Claim C9.  Processing one fetched item leaves every other participant's counts as they
  are and adds to each of the six buckets of the item's author what the item is worth
  to that bucket: for a \<open>p_\<close> bucket the number of the item's labels whose lower-cased
  name is the bucket's label if the item is a merged pull request, for an \<open>i_\<close> bucket
  that number if the item is an issue whose \<open>state_reason\<close> is \<open>None\<close>, \<open>reopened\<close> or
  \<open>completed\<close>, and 0 otherwise.  Over a whole collection every bucket holds the sum of
  what the author's items are worth to it.
\<close>

theorem collect_item_credit:
  assumes "well_formed ps"
  shows "(\<exists>ps'. collect_item it ps = Inr ps' \<and> well_formed ps'
           \<and> map fst ps' = (if author_of it \<in> set (map fst ps) then map fst ps
                            else map fst ps @ [author_of it])
           \<and> (\<forall>a. a \<noteq> author_of it \<longrightarrow> map_of ps' a = map_of ps a)
           \<and> (\<forall>k \<in> set bucket_keys.
                 dict_get (counts_of ps' (author_of it)) k 0
                   = dict_get (counts_of ps (author_of it)) k 0 + credit it k))
       \<and> (\<forall>its all a. collect_items its [] = Inr all \<longrightarrow>
            (\<forall>k \<in> set bucket_keys.
               dict_get (counts_of all a) k 0
                 = sum_list (map (\<lambda>it. credit it k) (filter (\<lambda>it. author_of it = a) its))))"
proof (intro conjI allI impI ballI)
  show "\<exists>ps'. collect_item it ps = Inr ps' \<and> well_formed ps'
           \<and> map fst ps' = (if author_of it \<in> set (map fst ps) then map fst ps
                            else map fst ps @ [author_of it])
           \<and> (\<forall>a. a \<noteq> author_of it \<longrightarrow> map_of ps' a = map_of ps a)
           \<and> (\<forall>k \<in> set bucket_keys.
                 dict_get (counts_of ps' (author_of it)) k 0
                   = dict_get (counts_of ps (author_of it)) k 0 + credit it k)"
    using assms by (rule collect_item_result)
next
  fix its all a k
  assume "collect_items its [] = Inr all" and "k \<in> set bucket_keys"
  then show "dict_get (counts_of all a) k 0
                 = sum_list (map (\<lambda>it. credit it k) (filter (\<lambda>it. author_of it = a) its))"
    by (rule collected_counts(1))
qed

text \<open>
  Claim C9 on a merged pull request with the labels \<open>BUG\<close> and \<open>Documentation\<close>: both
  buckets are incremented.
\<close>

theorem collect_item_credit_witness:
  "well_formed ([] :: (string, activities) dict)
   \<and> (\<exists>ps'. collect_item merged_pr ([] :: (string, activities) dict) = Inr ps' \<and> well_formed ps'
           \<and> map fst ps' = (if author_of merged_pr \<in> set (map fst ([] :: (string, activities) dict)) then map fst ([] :: (string, activities) dict)
                            else map fst ([] :: (string, activities) dict) @ [author_of merged_pr])
           \<and> (\<forall>a. a \<noteq> author_of merged_pr \<longrightarrow> map_of ps' a = map_of ([] :: (string, activities) dict) a)
           \<and> (\<forall>k \<in> set bucket_keys.
                 dict_get (counts_of ps' (author_of merged_pr)) k 0
                   = dict_get (counts_of ([] :: (string, activities) dict) (author_of merged_pr)) k 0 + credit merged_pr k))
   \<and> credit merged_pr ''p_bug'' = 1 \<and> credit merged_pr ''p_documentation'' = 1
   \<and> credit merged_pr ''p_enhancement'' = 0 \<and> credit merged_pr ''i_bug'' = 0
   \<and> collect_item merged_pr []
       = Inr [(''bob'', [(''p_enhancement'', 0), (''p_bug'', 1), (''p_documentation'', 1),
                        (''i_enhancement'', 0), (''i_bug'', 0), (''i_documentation'', 0)])]"
proof -
  have wf: "well_formed ([] :: (string, activities) dict)" by (simp add: well_formed_def)
  from wf collect_item_credit[OF wf, of merged_pr, THEN conjunct1] credit_merged_pr
    collect_merged_pr
  show ?thesis by (intro conjI)
qed

text \<open>
  Claim C10.  The author of any fetched item is a participant after the collection, with
  the six buckets; when none of the author's items is worth anything to any bucket, all
  six counts are 0, and \<open>calculate_scores\<close> returns a result in which the author has
  every component 0, total 0 and rate 0.
\<close>

theorem every_author_is_registered:
  assumes "ends_at f n" and "it \<in> set (fetched_items f n)"
    and "\<forall>it' \<in> set (fetched_items f n).
           author_of it' = author_of it \<longrightarrow> (\<forall>k \<in> set bucket_keys. credit it' k = 0)"
  shows "\<exists>st c out. collect_PRs_and_issues f init_analyzer = Some (Inr st)
          \<and> map_of (participants st) (author_of it) = Some c
          \<and> well_formed_counts c \<and> (\<forall>k \<in> set bucket_keys. dict_get c k 0 = 0)
          \<and> calculate_scores (participants st) = Inr out
          \<and> map_of out (author_of it)
               = Some \<lparr>feat_bug_PR = 0, document_PR = 0, feat_bug_issue = 0, document_issue = 0,
                       total = 0, rate = Fin 0\<rparr>"
proof -
  let ?A = "author_of it"
  let ?its = "fetched_items f n"
  from collect_PRs_and_issues_ends[OF assms(1)] obtain ps where
    ps: "collect_items ?its [] = Inr ps" and wf: "well_formed ps" and
    c: "collect_PRs_and_issues f init_analyzer
          = Some (Inr \<lparr>participants = ps, data_collected = (status_code (f n) = 200)\<rparr>)"
    by blast
  have bk: "''p_bug'' \<in> set bucket_keys" by (simp add: bucket_keys_def)
  have "?A \<in> set (map fst ps)"
    using collected_counts(3)[OF ps bk] assms(2) by simp
  then obtain cs where cs: "map_of ps ?A = Some cs"
    by (metis map_of_eq_None_iff not_Some_eq set_map)
  have wfc: "well_formed_counts cs" by (rule well_formed_lookup[OF wf cs])
  have co: "counts_of ps ?A = cs" by (simp add: counts_of_def cs)
  have zero: "dict_get cs k 0 = 0" if "k \<in> set bucket_keys" for k
  proof -
    have "\<forall>x \<in> set (filter (\<lambda>it'. author_of it' = ?A) ?its). credit x k = 0"
      using assms(3) that by auto
    then have "sum_list (map (\<lambda>it. credit it k) (filter (\<lambda>it'. author_of it' = ?A) ?its)) = 0"
      by (rule sum_list_all_zero)
    then show ?thesis using collected_counts(1)[OF ps that, of ?A] co by simp
  qed
  have d: "distinct (map fst ps)" using wf by (simp add: well_formed_def)
  from calculate_scores_returns[OF d collected_nonneg[OF ps]] obtain out where
    out: "calculate_scores ps = Inr out" ..
  have mem: "(?A, cs) \<in> set ps" using cs by (rule map_of_SomeD)
  have sz: "score_participant cs
           = \<lparr>feat_bug_PR = 0, document_PR = 0, feat_bug_issue = 0, document_issue = 0, total = 0\<rparr>"
    using zero by (intro score_participant_zero) blast
  from calculate_scores_entry[OF d out mem] obtain sc where
    sc: "map_of out ?A = Some sc" and tr: "breakdown.truncate sc = score_participant cs" and
    r: "participation_rate (total (score_participant cs)) (sum_of_totals ps) = Inr (rate sc)"
    by blast
  have "rate sc = Fin 0" using r by (simp add: sz participation_rate_zero)
  then have "sc = \<lparr>feat_bug_PR = 0, document_PR = 0, feat_bug_issue = 0, document_issue = 0,
                       total = 0, rate = Fin 0\<rparr>"
    using tr sz by (cases sc) (simp add: breakdown.defs)
  with sc have fin: "map_of out ?A
               = Some \<lparr>feat_bug_PR = 0, document_PR = 0, feat_bug_issue = 0, document_issue = 0,
                       total = 0, rate = Fin 0\<rparr>" by simp
  have "collect_PRs_and_issues f init_analyzer
          = Some (Inr \<lparr>participants = ps, data_collected = (status_code (f n) = 200)\<rparr>)
        \<and> map_of (participants \<lparr>participants = ps, data_collected = (status_code (f n) = 200)\<rparr>) ?A = Some cs
        \<and> well_formed_counts cs \<and> (\<forall>k \<in> set bucket_keys. dict_get cs k 0 = 0)
        \<and> calculate_scores (participants \<lparr>participants = ps, data_collected = (status_code (f n) = 200)\<rparr>) = Inr out
        \<and> map_of out ?A
               = Some \<lparr>feat_bug_PR = 0, document_PR = 0, feat_bug_issue = 0, document_issue = 0,
                       total = 0, rate = Fin 0\<rparr>"
    using c cs wfc zero out fin by simp
  then show ?thesis by blast
qed

text \<open>
  Claim C10 on an author who has an unmerged pull request and an issue closed as not
  planned.
\<close>

theorem every_author_is_registered_witness:
  "ends_at one_page 1 \<and> unmerged_pr \<in> set (fetched_items one_page 1)
   \<and> list_all (\<lambda>it'. author_of it' \<noteq> author_of unmerged_pr
                        \<or> list_all (\<lambda>k. credit it' k = 0) bucket_keys)
        (fetched_items one_page 1)
   \<and> author_of unmerged_pr = ''carol''
   \<and> (\<exists>st c out. collect_PRs_and_issues one_page init_analyzer = Some (Inr st)
          \<and> map_of (participants st) (author_of unmerged_pr) = Some c
          \<and> well_formed_counts c \<and> (\<forall>k \<in> set bucket_keys. dict_get c k 0 = 0)
          \<and> calculate_scores (participants st) = Inr out
          \<and> map_of out (author_of unmerged_pr)
               = Some \<lparr>feat_bug_PR = 0, document_PR = 0, feat_bug_issue = 0, document_issue = 0,
                       total = 0, rate = Fin 0\<rparr>)"
proof -
  have e: "ends_at one_page 1" by (rule ends_one_page)
  have m: "unmerged_pr \<in> set (fetched_items one_page 1)"
    by (simp add: fetched_items_def one_page_def)
  have l: "list_all (\<lambda>it'. author_of it' \<noteq> author_of unmerged_pr
                        \<or> list_all (\<lambda>k. credit it' k = 0) bucket_keys)
        (fetched_items one_page 1)"
    by code_simp
  then have z: "\<forall>it' \<in> set (fetched_items one_page 1).
           author_of it' = author_of unmerged_pr \<longrightarrow> (\<forall>k \<in> set bucket_keys. credit it' k = 0)"
    by (auto simp: list_all_iff)
  have a: "author_of unmerged_pr = ''carol''" by (simp add: author_of_def unmerged_pr_def)
  from e m l a every_author_is_registered[OF e m z] show ?thesis by (intro conjI)
qed

end
